theory Spec2Isabelle
  imports Main "HOL-Library.Word"
begin

unbundle bit_operations_syntax

section \<open>The system interface used by \<open>popen2\<close>\<close>

text \<open>
  \<open>popen2\<close> (src/src/common.h) talks to the kernel through \<open>pipe\<close>, \<open>fork\<close>,
  \<open>close\<close>, \<open>poll\<close>, \<open>write\<close>, \<open>read\<close> and \<open>waitpid\<close>. The embedding keeps the
  control flow of the C function and takes what the kernel answers from an
  environment: the descriptors handed out by \<open>pipe\<close>, the value of \<open>fork\<close>, one
  record per return of \<open>poll\<close>, and the answer of \<open>waitpid\<close>. Every system call
  the function makes is written to a log, newest call first.

  C \<open>int\<close> values are modelled as \<open>int\<close>: for non-negative lengths the cursors stay
  between 0 and the lengths, so no operation of the function can overflow.
  The logging macros (\<open>log\<close>, \<open>error\<close>, \<open>syserror\<close>) and the \<open>verbose\<close> dump only
  print; they are left out.
\<close>

type_synonym fd = int
type_synonym revents = "16 word"

text \<open>The \<open>poll.h\<close> flags (Linux values); \<open>revents\<close> is a C \<open>short\<close>.\<close>

definition POLLIN :: revents where "POLLIN = 0x0001"
definition POLLOUT :: revents where "POLLOUT = 0x0004"
definition POLLERR :: revents where "POLLERR = 0x0008"
definition POLLHUP :: revents where "POLLHUP = 0x0010"

text \<open>The \<open>sys/wait.h\<close> macros (glibc) on the status word filled in by \<open>waitpid\<close>.\<close>

definition WIFEXITED :: "int \<Rightarrow> bool" where
  "WIFEXITED status = (status AND 0x7f = 0)"

definition WEXITSTATUS :: "int \<Rightarrow> int" where
  "WEXITSTATUS status = drop_bit 8 (status AND 0xff00)"

text \<open>The status word the kernel reports for a child that called \<open>exit(code)\<close>.\<close>

definition W_EXITCODE :: "int \<Rightarrow> int" where
  "W_EXITCODE code = push_bit 8 (code AND 0xff)"

datatype syscall =
    SysPipe fd fd
  | SysFork int
  | SysClose fd
  | SysDup2 fd fd
  | SysExec string "string list"
  | SysExit int
  | SysPoll fd fd int revents revents
  | SysWrite fd int int int
  | SysWriteStuck fd int int
  | SysRead fd int int int
  | SysWaitpid int

text \<open>
  \<open>SysPoll a b n re0 re1\<close>: \<open>poll\<close> on \<open>fds[0].fd = a\<close> and \<open>fds[1].fd = b\<close>
  returned \<open>n\<close>, with \<open>fds[0].revents = re0\<close> and \<open>fds[1].revents = re1\<close> when
  \<open>n\<close> is not negative.
  \<open>SysWrite fd off count n\<close>: \<open>write(fd, input + off, count)\<close> returned \<open>n\<close>.
  \<open>SysWriteStuck fd off count\<close>: \<open>write(fd, input + off, count)\<close> was called and
  never returns.
  \<open>SysRead fd off count n\<close>: \<open>read(fd, output + off, count)\<close> returned \<open>n\<close>.
\<close>

datatype wresp = WErr | WDone | WBlock
datatype rresp = RErr | RData string

text \<open>
  One return of \<open>poll\<close>: its return value, the conditions the kernel has for the
  stdout read end (\<open>rev0\<close>) and for the stdin write end (\<open>rev1\<close>), and what a
  \<open>write\<close> or a \<open>read\<close> made in this pass meets. The descriptors are the blocking
  ones \<open>pipe\<close> hands out (the function never makes them non-blocking), so a
  \<open>write\<close> either fails (\<open>WErr\<close>), or returns once all its bytes are in the pipe
  (\<open>WDone\<close>), or waits for room that nobody makes and never returns (\<open>WBlock\<close>).
  \<open>RData bs\<close> is a pipe holding the bytes \<open>bs\<close>.
\<close>

record round =
  polln :: int
  rev0 :: revents
  rev1 :: revents
  wr :: wresp
  rd :: rresp

record env =
  pipe_in :: "(fd \<times> fd) option"
  pipe_out :: "(fd \<times> fd) option"
  fork_ret :: int
  exec_ok :: bool
  rounds :: "round list"
  wait_ret :: "(int \<times> int) option"

text \<open>
  \<open>pipe_in\<close>, \<open>pipe_out\<close>: \<open>None\<close> when \<open>pipe\<close> fails, else the read end and the
  write end. \<open>fork_ret\<close>: negative on failure, 0 in the child, the child's pid in
  the parent. \<open>rounds\<close>: the returns of \<open>poll\<close>, in order; the call has no timeout,
  so after the last one \<open>poll\<close> blocks for good. \<open>wait_ret\<close>: the value of
  \<open>waitpid\<close> and the status word, \<open>None\<close> when the child never terminates.
\<close>

text \<open>A negative \<open>fd\<close> in a \<open>pollfd\<close> is ignored and its \<open>revents\<close> is zero (poll(2)).\<close>

definition poll_revents :: "fd \<Rightarrow> revents \<Rightarrow> revents" where
  "poll_revents fd raw = (if fd < 0 then 0 else raw)"

text \<open>The conversion of a C \<open>int\<close> byte count to \<open>size_t\<close> (64 bits).\<close>

definition size_t :: "int \<Rightarrow> nat" where
  "size_t c = nat (c mod 2 ^ 64)"

text \<open>
  \<open>write\<close> on a blocking pipe: -1, or the whole count, or no return at all (\<open>None\<close>).
\<close>

definition sys_write :: "wresp \<Rightarrow> int \<Rightarrow> int option" where
  "sys_write w count =
     (case w of WErr \<Rightarrow> Some (- 1) | WDone \<Rightarrow> Some (int (size_t count)) | WBlock \<Rightarrow> None)"

text \<open>\<open>read\<close> transfers at most \<open>count\<close> of the bytes in the pipe, or fails with -1.\<close>

definition sys_read :: "rresp \<Rightarrow> int \<Rightarrow> int \<times> string" where
  "sys_read r count =
     (case r of
        RErr \<Rightarrow> (-1, [])
      | RData avail \<Rightarrow>
          (let bs = take (size_t count) avail in (int (length bs), bs)))"

text \<open>Memory behind a \<open>char*\<close>: the byte at each offset. \<open>store\<close> writes \<open>bs\<close> at \<open>off\<close>.\<close>

type_synonym mem = "nat \<Rightarrow> char"

definition store :: "mem \<Rightarrow> nat \<Rightarrow> string \<Rightarrow> mem" where
  "store m off bs = (\<lambda>i. if off \<le> i \<and> i < off + length bs then bs ! (i - off) else m i)"

definition mem_of :: "string \<Rightarrow> mem" where
  "mem_of s = (\<lambda>i. if i < length s then s ! i else CHR 0x00)"

definition bytes :: "mem \<Rightarrow> nat \<Rightarrow> nat \<Rightarrow> string" where
  "bytes m off n = map m [off ..< off + n]"

section \<open>\<open>popen2\<close>\<close>

text \<open>
  The variables of the parent: the two cursors, \<open>stdin_fd[1]\<close>, \<open>fds[1].fd\<close>,
  \<open>stdout_fd[0]\<close> (which is also \<open>fds[0].fd\<close>; neither is ever assigned again),
  the memory at \<open>output\<close>, and two records of what the call has done so far: the
  bytes that its writes have delivered into the stdin pipe (\<open>sent\<close>) and the log of its
  system calls, newest first.
\<close>

record pstate =
  readlen :: int
  writelen :: int
  stdin_fd1 :: fd
  fds1_fd :: fd
  stdout_fd0 :: fd
  output_mem :: mem
  sent :: string
  trace :: "syscall list"

definition log_call :: "syscall \<Rightarrow> pstate \<Rightarrow> pstate" where
  "log_call e st = st\<lparr>trace := e # trace st\<rparr>"

datatype 'a loop = Break 'a | Continue 'a | Stuck 'a

text \<open>
  Lines 119-138: the write leg. \<open>Break\<close> is the \<open>break\<close> after a failed write;
  \<open>Stuck\<close> is a \<open>write\<close> that never returns (what it has transferred by then is not
  recorded); \<open>Continue\<close> carries \<open>fds[1].revents\<close> as the leg leaves it.
\<close>

definition write_leg ::
  "mem \<Rightarrow> int \<Rightarrow> pstate \<Rightarrow> wresp \<Rightarrow> revents \<Rightarrow> (pstate \<times> revents) loop" where
  "write_leg input inlen st w re1 =
     (if re1 AND POLLOUT \<noteq> 0 then
        (case
           (if inlen > writelen st then
              (case sys_write w (inlen - writelen st) of
                 None \<Rightarrow>
                   Stuck (log_call (SysWriteStuck (stdin_fd1 st) (writelen st) (inlen - writelen st)) st)
               | Some n \<Rightarrow>
                   (let st' = log_call (SysWrite (stdin_fd1 st) (writelen st) (inlen - writelen st) n) st
                    in if n < 0 then Break (st'\<lparr>readlen := -1\<rparr>)
                       else Continue (st'\<lparr>writelen := writelen st' + n,
                                          sent := sent st' @ bytes input (nat (writelen st')) (nat n)\<rparr>)))
            else Continue st)
         of
           Break st' \<Rightarrow> Break (st', re1)
         | Stuck st' \<Rightarrow> Stuck (st', re1)
         | Continue st' \<Rightarrow>
             (let st'' =
                (if writelen st' = inlen
                 then (log_call (SysClose (stdin_fd1 st')) st')\<lparr>stdin_fd1 := -1, fds1_fd := -1\<rparr>
                 else st')
              in Continue (st'', re1 AND NOT POLLOUT)))
      else Continue (st, re1))"

text \<open>
  Lines 147-166: the read leg. \<open>Break\<close> is the \<open>break\<close> after a failed read or
  after \<open>Output too long\<close>; only the first sets \<open>readlen\<close> to -1.
  A \<open>read\<close> is made only after \<open>poll\<close> has reported the descriptor readable, so it
  returns at once with the bytes in the pipe, or with 0 at end of stream.
\<close>

definition read_leg :: "int \<Rightarrow> pstate \<Rightarrow> rresp \<Rightarrow> revents \<Rightarrow> (pstate \<times> revents) loop" where
  "read_leg outlen st r re0 =
     (if re0 AND POLLIN \<noteq> 0 then
        (let (n, bs) = sys_read r (outlen - readlen st);
             st' = log_call (SysRead (stdout_fd0 st) (readlen st) (outlen - readlen st) n)
                     (st\<lparr>output_mem := store (output_mem st) (nat (readlen st)) bs\<rparr>)
         in if n < 0 then Break (st'\<lparr>readlen := -1\<rparr>, re0)
            else
              (let st'' = st'\<lparr>readlen := readlen st' + n\<rparr>
               in if readlen st'' \<ge> outlen then Break (st'', re0)
                  else Continue (st'', re0 AND NOT POLLIN)))
      else Continue (st, re0))"

text \<open>Line 108: \<open>poll\<close> has returned; the call and what it reported are logged.\<close>

definition polled :: "pstate \<Rightarrow> round \<Rightarrow> pstate" where
  "polled st r =
     log_call (SysPoll (stdout_fd0 st) (fds1_fd st) (polln r)
                 (poll_revents (stdout_fd0 st) (rev0 r))
                 (poll_revents (fds1_fd st) (rev1 r))) st"

text \<open>Lines 108-176: one pass of \<open>while (1)\<close>.\<close>

definition pump_step :: "mem \<Rightarrow> int \<Rightarrow> int \<Rightarrow> pstate \<Rightarrow> round \<Rightarrow> pstate loop" where
  "pump_step input inlen outlen st r =
     (let re0 = poll_revents (stdout_fd0 st) (rev0 r);
          re1 = poll_revents (fds1_fd st) (rev1 r);
          st1 = polled st r
      in if polln r < 0 then Break (st1\<lparr>readlen := -1\<rparr>)
         else
           (case write_leg input inlen st1 (wr r) re1 of
              Break (st2, _) \<Rightarrow> Break st2
            | Stuck (st2, _) \<Rightarrow> Stuck st2
            | Continue (st2, re1') \<Rightarrow>
                if re1' \<noteq> 0 then Break (st2\<lparr>readlen := -1\<rparr>)
                else
                  (case read_leg outlen st2 (rd r) re0 of
                     Break (st3, _) \<Rightarrow> Break st3
                   | Stuck (st3, _) \<Rightarrow> Stuck st3
                   | Continue (st3, re0') \<Rightarrow>
                       if re0' = POLLHUP then Break st3
                       else if re0' \<noteq> 0 then Break (st3\<lparr>readlen := -1\<rparr>)
                       else Continue st3)))"

text \<open>
  The loop. \<open>Continue st\<close> as result: every return of \<open>poll\<close> has been served and
  the loop is still running, blocked in \<open>poll\<close>. \<open>Stuck st\<close>: the loop is blocked in a
  \<open>write\<close>. \<open>Break st\<close>: the loop was left.
\<close>

fun pump :: "mem \<Rightarrow> int \<Rightarrow> int \<Rightarrow> pstate \<Rightarrow> round list \<Rightarrow> pstate loop" where
  "pump input inlen outlen st [] = Continue st"
| "pump input inlen outlen st (r # rs) =
     (case pump_step input inlen outlen st r of
        Break st' \<Rightarrow> Break st'
      | Stuck st' \<Rightarrow> Stuck st'
      | Continue st' \<Rightarrow> pump input inlen outlen st' rs)"

datatype outcome =
    Returned int
  | Blocked
  | Replaced
  | Exited int

text \<open>
  \<open>Returned v\<close>: \<open>popen2\<close> returns \<open>v\<close>. \<open>Blocked\<close>: the call never returns
  (\<open>poll\<close>, \<open>write\<close> or \<open>waitpid\<close> blocks for good). \<open>Replaced\<close> and \<open>Exited c\<close> end the child's
  branch: the program image was replaced, or the child called \<open>exit(c)\<close>.
\<close>

text \<open>Lines 179-209: close what is open, wait for the child, classify.\<close>

definition reap :: "env \<Rightarrow> int \<Rightarrow> int \<Rightarrow> pstate \<Rightarrow> outcome \<times> pstate" where
  "reap e pid inlen st =
     (let st1 = (if stdin_fd1 st \<ge> 0 then log_call (SysClose (stdin_fd1 st)) st else st);
          st2 = log_call (SysClose (stdout_fd0 st1)) st1;
          st3 = log_call (SysWaitpid pid) st2
      in case wait_ret e of
           None \<Rightarrow> (Blocked, st3)
         | Some (wait_pid, status) \<Rightarrow>
             if wait_pid \<noteq> pid then (Returned (-1), st3)
             else if WIFEXITED status then
               (if WEXITSTATUS status \<noteq> 0 then (Returned (- WEXITSTATUS status), st3)
                else if writelen st3 \<noteq> inlen then (Returned (-1), st3)
                else (Returned (readlen st3), st3))
             else (Returned (-1), st3))"

definition start :: "mem \<Rightarrow> syscall list \<Rightarrow> pstate" where
  "start out tr =
     \<lparr>readlen = 0, writelen = 0, stdin_fd1 = -1, fds1_fd = -1, stdout_fd0 = -1,
      output_mem = out, sent = [], trace = tr\<rparr>"

text \<open>Lines 74-87: the child.\<close>

definition child :: "env \<Rightarrow> string \<Rightarrow> string list option \<Rightarrow> fd \<times> fd \<Rightarrow> fd \<times> fd \<Rightarrow> pstate \<Rightarrow> outcome \<times> pstate" where
  "child e cmd argv sin sout st =
     (let st1 = log_call (SysClose (snd sin)) st;
          st2 = log_call (SysDup2 (fst sin) 0) st1;
          st3 = log_call (SysClose (fst sout)) st2;
          st4 = log_call (SysDup2 (snd sout) 1) st3;
          st5 = log_call (SysExec cmd (case argv of Some a \<Rightarrow> a | None \<Rightarrow> [cmd])) st4
      in if exec_ok e then (Replaced, st5)
         else (Exited 127, log_call (SysExit 127) st5))"

text \<open>Lines 92-105: the parent closes the child's halves and sets up the loop.\<close>

definition parent_init :: "fd \<times> fd \<Rightarrow> fd \<times> fd \<Rightarrow> pstate \<Rightarrow> pstate" where
  "parent_init sin sout st =
     (let st1 = log_call (SysClose (fst sin)) st;
          st2 = log_call (SysClose (snd sout)) st1
      in st2\<lparr>readlen := 0, writelen := 0, stdin_fd1 := snd sin, fds1_fd := snd sin,
             stdout_fd0 := fst sout\<rparr>)"

definition popen2 ::
  "env \<Rightarrow> string \<Rightarrow> string list option \<Rightarrow> mem \<Rightarrow> int \<Rightarrow> mem \<Rightarrow> int \<Rightarrow> outcome \<times> pstate" where
  "popen2 e cmd argv input inlen out outlen =
     (case pipe_in e of
        None \<Rightarrow> (Returned (-1), start out [])
      | Some sin \<Rightarrow>
          (case pipe_out e of
             None \<Rightarrow> (Returned (-1), start out [SysPipe (fst sin) (snd sin)])
           | Some sout \<Rightarrow>
               (let pid = fork_ret e;
                    st = start out
                           [SysFork pid, SysPipe (fst sout) (snd sout), SysPipe (fst sin) (snd sin)]
                in if pid < 0 then (Returned (-1), st)
                   else if pid = 0 then child e cmd argv sin sout st
                   else
                     (case pump input inlen outlen (parent_init sin sout st) (rounds e) of
                        Continue st' \<Rightarrow> (Blocked, st')
                      | Stuck st' \<Rightarrow> (Blocked, st')
                      | Break st' \<Rightarrow> reap e pid inlen st'))))"

section \<open>Notions used in the statements\<close>

text \<open>
  The kernel reports hang-up on the stdout read end in some return of \<open>poll\<close>: the
  child has closed its stdout, which it does at the latest when it terminates.
\<close>

definition hangup_reported :: "env \<Rightarrow> bool" where
  "hangup_reported e = list_ex (\<lambda>r. rev0 r AND POLLHUP \<noteq> 0) (rounds e)"

text \<open>
  Every \<open>write\<close> the environment has an answer for returns. A \<open>write\<close> into a pipe
  whose reader terminates does: it fails at the latest when the reader is gone.
\<close>

definition writes_return :: "env \<Rightarrow> bool" where
  "writes_return e = list_all (\<lambda>r. wr r \<noteq> WBlock) (rounds e)"

text \<open>
  Environments for the examples: pipes 3/4 and 5/6, child pid 100, the given returns
  of \<open>poll\<close>, and \<open>waitpid\<close> delivering the given status word for the child.
\<close>

definition env_of :: "round list \<Rightarrow> int \<Rightarrow> env" where
  "env_of rs status =
     \<lparr>pipe_in = Some (3, 4), pipe_out = Some (5, 6), fork_ret = 100, exec_ok = True,
      rounds = rs, wait_ret = Some (100, status)\<rparr>"

definition poll_ret :: "revents \<Rightarrow> revents \<Rightarrow> wresp \<Rightarrow> rresp \<Rightarrow> round" where
  "poll_ret r0 r1 w r = \<lparr>polln = 1, rev0 = r0, rev1 = r1, wr = w, rd = r\<rparr>"

text \<open>The state a pass or the loop ends in, whether the loop goes on or not.\<close>

fun loop_state :: "'a loop \<Rightarrow> 'a" where
  "loop_state (Break s) = s"
| "loop_state (Continue s) = s"
| "loop_state (Stuck s) = s"


text \<open>The descriptors a log has opened with \<open>pipe\<close> and not closed.\<close>

fun open_fds :: "syscall list \<Rightarrow> fd list" where
  "open_fds [] = []"
| "open_fds (SysPipe a b # tr) = a # b # open_fds tr"
| "open_fds (SysClose f # tr) = removeAll f (open_fds tr)"
| "open_fds (_ # tr) = open_fds tr"

text \<open>
  The read cursor a log accounts for: the sum of what the successful reads returned.
\<close>

fun rcursor :: "syscall list \<Rightarrow> int" where
  "rcursor [] = 0"
| "rcursor (SysRead fd off cnt n # tr) = (if n < 0 then 0 else n) + rcursor tr"
| "rcursor (_ # tr) = rcursor tr"

text \<open>Whether the log holds a \<open>read\<close>.\<close>

fun has_read :: "syscall list \<Rightarrow> bool" where
  "has_read [] = False"
| "has_read (SysRead fd off cnt n # tr) = True"
| "has_read (_ # tr) = has_read tr"

text \<open>
  Every \<open>read\<close> of the log was made at the cursor, for \<open>outlen\<close> minus the cursor bytes,
  returned no more than that, and was made with the cursor below \<open>outlen\<close> unless it is
  the first \<open>read\<close> of the call.
\<close>

fun reads_ok :: "int \<Rightarrow> syscall list \<Rightarrow> bool" where
  "reads_ok outlen [] = True"
| "reads_ok outlen (SysRead fd off cnt n # tr) =
     (off = rcursor tr \<and> 0 \<le> off \<and> cnt = outlen - off \<and> n \<le> cnt \<and>
      (off < outlen \<or> \<not> has_read tr) \<and> reads_ok outlen tr)"
| "reads_ok outlen (_ # tr) = reads_ok outlen tr"

text \<open>
  \<open>served P\<close>: every return of \<open>poll\<close> that the loop gets to see satisfies \<open>P\<close> in the
  state the loop is in when it sees it.
\<close>

fun served ::
  "(pstate \<Rightarrow> round \<Rightarrow> bool) \<Rightarrow> mem \<Rightarrow> int \<Rightarrow> int \<Rightarrow> pstate \<Rightarrow> round list \<Rightarrow> bool" where
  "served P input inlen outlen st [] = True"
| "served P input inlen outlen st (r # rs) =
     (P st r \<and>
      (case pump_step input inlen outlen st r of
         Break st' \<Rightarrow> True
       | Stuck st' \<Rightarrow> True
       | Continue st' \<Rightarrow> served P input inlen outlen st' rs))"

text \<open>
  What holds of the output side whenever the call stops (\<open>rd_fin\<close>) and at the head of
  the loop (\<open>rd_inv\<close>); \<open>out\<close> is the memory at \<open>output\<close> before the call.
\<close>

definition rd_fin :: "mem \<Rightarrow> int \<Rightarrow> pstate \<Rightarrow> bool" where
  "rd_fin out outlen st =
     (readlen st \<le> outlen \<and> reads_ok outlen (trace st) \<and>
      (\<forall>i. nat outlen \<le> i \<longrightarrow> output_mem st i = out i))"

definition rd_inv :: "mem \<Rightarrow> int \<Rightarrow> pstate \<Rightarrow> bool" where
  "rd_inv out outlen st =
     (0 \<le> readlen st \<and> rcursor (trace st) = readlen st \<and>
      (readlen st < outlen \<or> \<not> has_read (trace st)) \<and> rd_fin out outlen st)"






text \<open>
  What the environment does when the child behaves in a given way. Each notion is a
  condition on one return of \<open>poll\<close>, in the state in which the loop receives it.

  \<open>stdin_writable\<close>: as long as the parent holds the write end of the stdin pipe,
  \<open>poll\<close> reports it writable, whatever else it reports for it. This is what the
  kernel reports for a pipe that holds no bytes, as the stdin pipe does when there is no
  input to write.

  \<open>stdin_idle\<close>: as long as the parent holds the write end, \<open>poll\<close> reports it writable
  and nothing else: the pipe holds no bytes and its read end is open.
\<close>

definition stdin_writable :: "pstate \<Rightarrow> round \<Rightarrow> bool" where
  "stdin_writable st r = (0 \<le> fds1_fd st \<longrightarrow> rev1 r AND POLLOUT \<noteq> 0)"

definition stdin_idle :: "pstate \<Rightarrow> round \<Rightarrow> bool" where
  "stdin_idle st r = (0 \<le> fds1_fd st \<longrightarrow> rev1 r = POLLOUT)"

text \<open>
  \<open>emits data\<close>: the child writes the bytes \<open>data\<close> to its stdout and then closes it;
  \<open>poll\<close> and \<open>read\<close> do not fail. The stdout read end is reported readable when the
  pipe holds bytes, which continue \<open>data\<close> from the read cursor on; it is reported hung
  up only when the child has written all of \<open>data\<close>, alone if all of it has been read
  and together with readable if the rest is in the pipe.
\<close>

definition emits :: "string \<Rightarrow> pstate \<Rightarrow> round \<Rightarrow> bool" where
  "emits data st r =
     (0 \<le> polln r \<and>
      (rev0 r = 0 \<or>
       rev0 r = POLLIN \<and>
         (case rd r of
            RErr \<Rightarrow> False
          | RData avail \<Rightarrow> take (length avail) (drop (nat (readlen st)) data) = avail) \<or>
       rev0 r = POLLHUP \<and> length data \<le> nat (readlen st) \<or>
       rev0 r = POLLIN OR POLLHUP \<and> rd r = RData (drop (nat (readlen st)) data)))"

text \<open>
  The output buffer holds the first \<open>readlen\<close> bytes of \<open>data\<close> (\<open>out_inv\<close>), or all of
  \<open>data\<close> (\<open>out_fin\<close>).
\<close>

definition out_inv :: "string \<Rightarrow> pstate \<Rightarrow> bool" where
  "out_inv data st =
     (0 \<le> readlen st \<and> nat (readlen st) \<le> length data \<and>
      bytes (output_mem st) 0 (nat (readlen st)) = take (nat (readlen st)) data)"

definition out_fin :: "string \<Rightarrow> pstate \<Rightarrow> bool" where
  "out_fin data st =
     (readlen st = int (length data) \<and> bytes (output_mem st) 0 (length data) = data)"

text \<open>Every \<open>read\<close> of the log has a \<open>close\<close> of \<open>fd\<close> before it.\<close>

fun closed_before_reads :: "fd \<Rightarrow> syscall list \<Rightarrow> bool" where
  "closed_before_reads fd [] = True"
| "closed_before_reads fd (SysRead f off cnt n # tr) =
     (SysClose fd \<in> set tr \<and> closed_before_reads fd tr)"
| "closed_before_reads fd (_ # tr) = closed_before_reads fd tr"

text \<open>The state in which the parent enters the loop (lines 92-106).\<close>

definition pump_start :: "env \<Rightarrow> mem \<Rightarrow> pstate" where
  "pump_start e out =
     (case (pipe_in e, pipe_out e) of
        (Some sin, Some sout) \<Rightarrow>
          parent_init sin sout
            (start out [SysFork (fork_ret e), SysPipe (fst sout) (snd sout),
                        SysPipe (fst sin) (snd sin)])
      | _ \<Rightarrow> start out [])"

text \<open>With no input: the write end is closed, or nothing has been read yet.\<close>

definition cl_inv :: "fd \<Rightarrow> pstate \<Rightarrow> bool" where
  "cl_inv i1 st =
     (closed_before_reads i1 (trace st) \<and>
      (if 0 \<le> fds1_fd st
       then fds1_fd st = i1 \<and> stdin_fd1 st = i1 \<and> \<not> has_read (trace st) \<and> writelen st = 0
       else SysClose i1 \<in> set (trace st)))"

text \<open>
  \<open>takes_input\<close>: the child keeps its stdin open, and the pipe and the child take what
  is written: on the write end \<open>poll\<close> reports writable or nothing, and a \<open>write\<close>
  returns with all its bytes delivered.
\<close>

definition takes_input :: "round \<Rightarrow> bool" where
  "takes_input r = (rev1 r = 0 \<or> rev1 r = POLLOUT \<and> wr r = WDone)"

text \<open>The state in which a pass reaches its read leg.\<close>

definition after_write :: "mem \<Rightarrow> int \<Rightarrow> pstate \<Rightarrow> round \<Rightarrow> pstate" where
  "after_write input inlen st r =
     fst (loop_state
            (write_leg input inlen (polled st r) (wr r) (poll_revents (fds1_fd st) (rev1 r))))"

text \<open>
  \<open>echoes i1 input inlen\<close>: the child copies its stdin to its stdout unchanged, \<open>i1\<close>
  being the parent's write end of the stdin pipe. It takes input; what it emits are
  the bytes that the parent has written into the stdin pipe by the time of the read;
  and it closes its stdout, so that hang-up is reported, only after the parent has
  closed the write end.
\<close>

definition echoes :: "fd \<Rightarrow> mem \<Rightarrow> int \<Rightarrow> pstate \<Rightarrow> round \<Rightarrow> bool" where
  "echoes i1 input inlen st r =
     (takes_input r \<and> emits (sent (after_write input inlen st r)) st r \<and>
      (rev0 r AND POLLHUP \<noteq> 0 \<longrightarrow> SysClose i1 \<in> set (trace st)))"

text \<open>The loop invariant for a child that echoes.\<close>

definition cat_inv :: "fd \<Rightarrow> mem \<Rightarrow> int \<Rightarrow> pstate \<Rightarrow> bool" where
  "cat_inv i1 input inlen st =
     (out_inv (sent st) st \<and> sent st = bytes input 0 (nat (writelen st)) \<and>
      0 \<le> writelen st \<and> writelen st \<le> inlen \<and> 0 \<le> stdout_fd0 st \<and>
      stdin_fd1 st = fds1_fd st \<and>
      (if 0 \<le> fds1_fd st then fds1_fd st = i1 \<and> SysClose i1 \<notin> set (trace st)
       else writelen st = inlen))"

text \<open>
  Of the descriptors the call has opened, at most the stdout read end and, while
  \<open>stdin_fd[1]\<close> still holds it, the stdin write end are open.
\<close>

definition fd_inv :: "fd \<Rightarrow> pstate \<Rightarrow> bool" where
  "fd_inv o0 st =
     (stdout_fd0 st = o0 \<and>
      set (open_fds (trace st)) \<subseteq> {o0} \<union> (if 0 \<le> stdin_fd1 st then {stdin_fd1 st} else {}))"

text \<open>What has been written into the stdin pipe is the input up to the write cursor.\<close>

definition sent_inv :: "mem \<Rightarrow> pstate \<Rightarrow> bool" where
  "sent_inv input st = (0 \<le> writelen st \<and> sent st = bytes input 0 (nat (writelen st)))"

lemmas model_defs =
  popen2_def start_def parent_init_def child_def reap_def pump_step_def polled_def write_leg_def
  read_leg_def log_call_def poll_revents_def sys_write_def sys_read_def size_t_def
  store_def bytes_def mem_of_def env_of_def poll_ret_def hangup_reported_def writes_return_def
  POLLIN_def POLLOUT_def POLLERR_def POLLHUP_def WIFEXITED_def WEXITSTATUS_def
  W_EXITCODE_def Let_def

section \<open>The loop ends once hang-up is reported, unless a write blocks\<close>

lemma hup_mask: "NOT POLLIN AND POLLHUP = POLLHUP"
  by (simp add: POLLIN_def POLLHUP_def)

lemma write_leg_stdout_fd0:
  "stdout_fd0 (fst (loop_state (write_leg input inlen st w re1))) = stdout_fd0 st"
  by (simp add: write_leg_def Let_def log_call_def split: option.splits)

lemma read_leg_stdout_fd0:
  "stdout_fd0 (fst (loop_state (read_leg outlen st r re0))) = stdout_fd0 st"
  by (simp add: read_leg_def Let_def log_call_def split: prod.splits)

lemma pump_step_stdout_fd0:
  "stdout_fd0 (loop_state (pump_step input inlen outlen st r)) = stdout_fd0 st"
proof -
  let ?st1 = "polled st r"
  let ?w = "write_leg input inlen ?st1 (wr r) (poll_revents (fds1_fd st) (rev1 r))"
  have w: "stdout_fd0 (fst (loop_state ?w)) = stdout_fd0 st"
    by (simp add: write_leg_stdout_fd0) (simp add: polled_def log_call_def)
  show ?thesis
    using w read_leg_stdout_fd0 [of outlen "fst (loop_state ?w)" "rd r" "poll_revents (stdout_fd0 st) (rev0 r)"]
    by (auto simp: pump_step_def Let_def polled_def log_call_def split: loop.splits prod.splits)
qed


lemma read_leg_hup:
  "re0 AND POLLHUP \<noteq> 0 \<Longrightarrow> read_leg outlen st r re0 = Continue (st', re0')
   \<Longrightarrow> re0' AND POLLHUP \<noteq> 0"
  by (auto simp: read_leg_def Let_def and.assoc hup_mask split: if_splits prod.splits)

text \<open>A pass that does not leave the loop: both legs ran through and left no condition.\<close>

lemma pump_step_ContinueE:
  assumes "pump_step input inlen outlen st r = Continue st'"
  obtains st2 where "0 \<le> polln r"
    and "write_leg input inlen (polled st r) (wr r)
           (poll_revents (fds1_fd st) (rev1 r)) = Continue (st2, 0)"
    and "read_leg outlen st2 (rd r) (poll_revents (stdout_fd0 st) (rev0 r)) = Continue (st', 0)"
  using assms unfolding pump_step_def Let_def
  by (simp split: if_splits loop.splits prod.splits)

lemma pump_step_hup:
  assumes "0 \<le> stdout_fd0 st" and "rev0 r AND POLLHUP \<noteq> 0"
  shows "pump_step input inlen outlen st r \<noteq> Continue st'"
proof
  assume "pump_step input inlen outlen st r = Continue st'"
  then obtain st2 where
    r: "read_leg outlen st2 (rd r) (poll_revents (stdout_fd0 st) (rev0 r)) = Continue (st', 0)"
    by (rule pump_step_ContinueE)
  have "poll_revents (stdout_fd0 st) (rev0 r) AND POLLHUP \<noteq> 0"
    using assms by (simp add: poll_revents_def)
  from read_leg_hup [OF this r] show False by simp
qed

text \<open>A \<open>write\<close> that returns does not hold the pass up.\<close>

lemma write_leg_not_stuck:
  "w \<noteq> WBlock \<Longrightarrow> write_leg input inlen st w re1 \<noteq> Stuck x"
  by (cases w) (auto simp: write_leg_def sys_write_def Let_def split: if_splits)

lemma read_leg_not_stuck: "read_leg outlen st r re0 \<noteq> Stuck x"
  by (auto simp: read_leg_def Let_def split: if_splits prod.splits)

lemma pump_step_not_stuck:
  "wr r \<noteq> WBlock \<Longrightarrow> pump_step input inlen outlen st r \<noteq> Stuck x"
  using write_leg_not_stuck [of "wr r" input inlen "polled st r" "poll_revents (fds1_fd st) (rev1 r)"]
    read_leg_not_stuck [of outlen _ "rd r" "poll_revents (stdout_fd0 st) (rev0 r)"]
  by (auto simp: pump_step_def Let_def split: if_splits loop.splits prod.splits)

lemma pump_hup:
  assumes "0 \<le> stdout_fd0 st" and "list_ex (\<lambda>r. rev0 r AND POLLHUP \<noteq> 0) rs"
    and "list_all (\<lambda>r. wr r \<noteq> WBlock) rs"
  shows "\<exists>st'. pump input inlen outlen st rs = Break st'"
  using assms
proof (induction rs arbitrary: st)
  case Nil
  then show ?case by simp
next
  case (Cons r rs)
  show ?case
  proof (cases "pump_step input inlen outlen st r")
    case (Break s)
    then show ?thesis by simp
  next
    case (Stuck s)
    with Cons.prems(3) pump_step_not_stuck [of r input inlen outlen st s] show ?thesis by simp
  next
    case (Continue s)
    with Cons.prems have "\<not> rev0 r AND POLLHUP \<noteq> 0"
      using pump_step_hup by blast
    with Cons.prems have "list_ex (\<lambda>r. rev0 r AND POLLHUP \<noteq> 0) rs" by simp
    moreover have "0 \<le> stdout_fd0 s"
      using Continue Cons.prems(1) pump_step_stdout_fd0 [of input inlen outlen st r] by simp
    moreover have "list_all (\<lambda>r. wr r \<noteq> WBlock) rs"
      using Cons.prems(3) by simp
    ultimately show ?thesis
      using Cons.IH Continue by simp
  qed
qed

lemma pump_hup_or_stuck:
  assumes "0 \<le> stdout_fd0 st" and "list_ex (\<lambda>r. rev0 r AND POLLHUP \<noteq> 0) rs"
  shows "\<exists>st'. pump input inlen outlen st rs = Break st' \<or> pump input inlen outlen st rs = Stuck st'"
  using assms
proof (induction rs arbitrary: st)
  case Nil
  then show ?case by simp
next
  case (Cons r rs)
  show ?case
  proof (cases "pump_step input inlen outlen st r")
    case (Break s)
    then show ?thesis by simp
  next
    case (Stuck s)
    then show ?thesis by simp
  next
    case (Continue s)
    with Cons.prems have "\<not> rev0 r AND POLLHUP \<noteq> 0"
      using pump_step_hup by blast
    with Cons.prems have "list_ex (\<lambda>r. rev0 r AND POLLHUP \<noteq> 0) rs" by simp
    moreover have "0 \<le> stdout_fd0 s"
      using Continue Cons.prems(1) pump_step_stdout_fd0 [of input inlen outlen st r] by simp
    ultimately show ?thesis
      using Cons.IH Continue by simp
  qed
qed

lemma popen2_parent:
  assumes "pipe_in e = Some sin" and "pipe_out e = Some sout" and "0 < fork_ret e"
  shows "popen2 e cmd argv input inlen out outlen =
     (case pump input inlen outlen
             (parent_init sin sout
                (start out [SysFork (fork_ret e), SysPipe (fst sout) (snd sout),
                            SysPipe (fst sin) (snd sin)]))
             (rounds e) of
        Continue st' \<Rightarrow> (Blocked, st')
      | Stuck st' \<Rightarrow> (Blocked, st')
      | Break st' \<Rightarrow> reap e (fork_ret e) inlen st')"
  using assms by (simp add: popen2_def Let_def)

lemma parent_init_stdout_fd0: "stdout_fd0 (parent_init sin sout st) = fst sout"
  by (simp add: parent_init_def Let_def log_call_def)

lemma popen2_hup_reaps:
  assumes "pipe_in e = Some sin" and "pipe_out e = Some sout" and "0 \<le> fst sout"
    and "0 < fork_ret e" and "hangup_reported e" and "writes_return e"
  shows "\<exists>st. popen2 e cmd argv input inlen out outlen = reap e (fork_ret e) inlen st"
proof -
  let ?st0 = "parent_init sin sout
                (start out [SysFork (fork_ret e), SysPipe (fst sout) (snd sout),
                            SysPipe (fst sin) (snd sin)])"
  have "\<exists>st'. pump input inlen outlen ?st0 (rounds e) = Break st'"
    using assms(3,5,6)
    by (intro pump_hup) (simp_all add: parent_init_stdout_fd0 hangup_reported_def writes_return_def)
  then show ?thesis
    using popen2_parent [OF assms(1,2,4)] by auto
qed


section \<open>The classification after \<open>waitpid\<close>\<close>

lemma reap_writelen: "writelen (snd (reap e pid inlen st)) = writelen st"
  by (simp add: reap_def Let_def log_call_def split: option.splits prod.splits)

lemma reap_exit_status:
  assumes "wait_ret e = Some (pid, status)" and "WIFEXITED status" and "WEXITSTATUS status \<noteq> 0"
  shows "fst (reap e pid inlen st) = Returned (- WEXITSTATUS status)"
  using assms by (simp add: reap_def Let_def)

lemma reap_incomplete:
  assumes "wait_ret e = Some (pid, status)" and "WIFEXITED status" and "WEXITSTATUS status = 0"
    and "writelen st \<noteq> inlen"
  shows "fst (reap e pid inlen st) = Returned (- 1)"
  using assms by (simp add: reap_def Let_def log_call_def)

lemma exit_127: "WIFEXITED (W_EXITCODE 127) \<and> WEXITSTATUS (W_EXITCODE 127) = 127"
  by (simp add: WIFEXITED_def WEXITSTATUS_def W_EXITCODE_def)

text \<open>
  C4. Let the child be created and let it terminate: hang-up is reported on its stdout,
  and no \<open>write\<close> to it waits for good. If the child
  terminates by normal exit with status \<open>S\<close>, \<open>1 \<le> S \<le> 255\<close>, then \<open>popen2\<close> returns
  \<open>-S\<close>. In the child, a failing \<open>exec\<close> is followed by \<open>exit(127)\<close>; the status word of
  that exit makes the parent return -127.
\<close>

theorem popen2_returns_negated_exit_status:
  assumes "pipe_in e = Some sin" and "pipe_out e = Some sout" and "0 \<le> fst sout"
    and "0 < fork_ret e" and "hangup_reported e" and "writes_return e"
  shows "(wait_ret e = Some (fork_ret e, status) \<and> WIFEXITED status \<and>
          WEXITSTATUS status = S \<and> 1 \<le> S \<and> S \<le> 255
          \<longrightarrow> fst (popen2 e cmd argv input inlen out outlen) = Returned (- S))
       \<and> fst (popen2 (e\<lparr>fork_ret := 0, exec_ok := False\<rparr>) cmd argv input inlen out outlen)
           = Exited 127
       \<and> (wait_ret e = Some (fork_ret e, W_EXITCODE 127)
          \<longrightarrow> fst (popen2 e cmd argv input inlen out outlen) = Returned (- 127))"
proof -
  obtain st where st: "popen2 e cmd argv input inlen out outlen = reap e (fork_ret e) inlen st"
    using popen2_hup_reaps [OF assms] by blast
  have a: "wait_ret e = Some (fork_ret e, status) \<and> WIFEXITED status \<and>
          WEXITSTATUS status = S \<and> 1 \<le> S \<and> S \<le> 255
          \<longrightarrow> fst (popen2 e cmd argv input inlen out outlen) = Returned (- S)"
    using reap_exit_status [of e "fork_ret e" status inlen st] st by auto
  have b: "fst (popen2 (e\<lparr>fork_ret := 0, exec_ok := False\<rparr>) cmd argv input inlen out outlen)
           = Exited 127"
    using assms(1,2) by (simp add: popen2_def child_def Let_def)
  have c: "wait_ret e = Some (fork_ret e, W_EXITCODE 127)
          \<longrightarrow> fst (popen2 e cmd argv input inlen out outlen) = Returned (- 127)"
    using reap_exit_status [of e "fork_ret e" "W_EXITCODE 127" inlen st] st exit_127 by auto
  from a b c show ?thesis by blast
qed

text \<open>
  A command that cannot be launched, with five bytes of input: the child is gone before
  the first \<open>poll\<close>, which reports an error on the stdin write end and hang-up on stdout;
  the \<open>write\<close> fails.
\<close>

theorem popen2_returns_negated_exit_status_witness:
  "hangup_reported (env_of [poll_ret POLLHUP (POLLOUT OR POLLERR) WErr (RData [])] (W_EXITCODE 127))
   \<and> writes_return (env_of [poll_ret POLLHUP (POLLOUT OR POLLERR) WErr (RData [])] (W_EXITCODE 127))
   \<and> fst (popen2 (env_of [poll_ret POLLHUP (POLLOUT OR POLLERR) WErr (RData [])] (W_EXITCODE 127))
            ''nonexistent-binary-xyz'' None (mem_of ''hello'') 5 (mem_of []) 10) = Returned (- 127)
   \<and> fst (popen2 (env_of [poll_ret POLLHUP (POLLOUT OR POLLERR) WErr (RData [])] (W_EXITCODE 127)
                   \<lparr>fork_ret := 0, exec_ok := False\<rparr>)
            ''nonexistent-binary-xyz'' None (mem_of ''hello'') 5 (mem_of []) 10) = Exited 127"
proof -
  let ?e = "env_of [poll_ret POLLHUP (POLLOUT OR POLLERR) WErr (RData [])] (W_EXITCODE 127)"
  have h: "hangup_reported ?e" "writes_return ?e"
    by (simp_all add: hangup_reported_def writes_return_def env_of_def poll_ret_def POLLHUP_def)
  have p: "pipe_in ?e = Some (3, 4)" "pipe_out ?e = Some (5, 6)" "0 \<le> fst (5::int, 6::int)"
    "0 < fork_ret ?e" "wait_ret ?e = Some (fork_ret ?e, W_EXITCODE 127)"
    by (simp_all add: env_of_def)
  from popen2_returns_negated_exit_status [OF p(1-4) h, of "W_EXITCODE 127" 127] p(5) h
  show ?thesis by simp
qed

text \<open>
  C5. Let the child be created and let it terminate: hang-up is reported on its stdout,
  and no \<open>write\<close> to it waits for good. If the child exits normally with status 0 and the
  write cursor differs from \<open>inlen\<close> when the child is reaped, \<open>popen2\<close> returns -1 and not
  the number of bytes read.
\<close>

theorem popen2_incomplete_write:
  assumes "pipe_in e = Some sin" and "pipe_out e = Some sout" and "0 \<le> fst sout"
    and "0 < fork_ret e" and "hangup_reported e" and "writes_return e"
    and "wait_ret e = Some (fork_ret e, status)"
    and "WIFEXITED status" and "WEXITSTATUS status = 0"
    and "writelen (snd (popen2 e cmd argv input inlen out outlen)) \<noteq> inlen"
  shows "fst (popen2 e cmd argv input inlen out outlen) = Returned (- 1)"
proof -
  obtain st where st: "popen2 e cmd argv input inlen out outlen = reap e (fork_ret e) inlen st"
    using popen2_hup_reaps [OF assms(1-6)] by blast
  with assms(10) have "writelen st \<noteq> inlen"
    by (simp add: reap_writelen)
  from reap_incomplete [OF assms(7-9) this] st show ?thesis by simp
qed

text \<open>
  A child that writes \<open>ok\<close> and exits with status 0 without reading its five bytes of
  input, before the first \<open>poll\<close>: the \<open>write\<close> fails, nothing has been delivered or
  read, and the call returns -1.
\<close>

theorem popen2_incomplete_write_witness:
  "hangup_reported (env_of [poll_ret (POLLIN OR POLLHUP) (POLLOUT OR POLLERR) WErr (RData ''ok'')] 0)
   \<and> writes_return (env_of [poll_ret (POLLIN OR POLLHUP) (POLLOUT OR POLLERR) WErr (RData ''ok'')] 0)
   \<and> writelen (snd (popen2 (env_of [poll_ret (POLLIN OR POLLHUP) (POLLOUT OR POLLERR) WErr (RData ''ok'')] 0)
                  ''echo'' (Some [''echo'', ''-n'', ''ok'']) (mem_of ''hello'') 5 (mem_of []) 10)) = 0
   \<and> fst (popen2 (env_of [poll_ret (POLLIN OR POLLHUP) (POLLOUT OR POLLERR) WErr (RData ''ok'')] 0)
            ''echo'' (Some [''echo'', ''-n'', ''ok'']) (mem_of ''hello'') 5 (mem_of []) 10) = Returned (- 1)"
proof -
  let ?e = "env_of [poll_ret (POLLIN OR POLLHUP) (POLLOUT OR POLLERR) WErr (RData ''ok'')] 0"
  let ?R = "popen2 ?e ''echo'' (Some [''echo'', ''-n'', ''ok'']) (mem_of ''hello'') 5 (mem_of []) 10"
  have h: "hangup_reported ?e" "writes_return ?e"
    by (simp_all add: hangup_reported_def writes_return_def env_of_def poll_ret_def POLLHUP_def
          POLLIN_def)
  have p: "pipe_in ?e = Some (3, 4)" "pipe_out ?e = Some (5, 6)" "0 \<le> fst (5::int, 6::int)"
    "0 < fork_ret ?e" "wait_ret ?e = Some (fork_ret ?e, 0)"
    by (simp_all add: env_of_def)
  have s: "WIFEXITED 0" "WEXITSTATUS 0 = 0"
    by (simp_all add: WIFEXITED_def WEXITSTATUS_def)
  have w: "writelen (snd ?R) = 0"
    by (simp add: model_defs)
  then have w': "writelen (snd ?R) \<noteq> 5" by simp
  from popen2_incomplete_write [OF p(1-4) h p(5) s w'] h w
  show ?thesis by simp
qed

text \<open>
  C10. Let the child be created and let it terminate: hang-up is reported on its stdout,
  and no \<open>write\<close> to it waits for good. If the child exits normally with a status \<open>S\<close>
  other than 0 while the write cursor is below \<open>inlen\<close>, \<open>popen2\<close> returns \<open>-S\<close>: the exit
  status is examined before the incomplete write, so the result is -1 only for \<open>S = 1\<close>.
\<close>

theorem popen2_exit_status_before_incomplete_write:
  assumes "pipe_in e = Some sin" and "pipe_out e = Some sout" and "0 \<le> fst sout"
    and "0 < fork_ret e" and "hangup_reported e" and "writes_return e"
    and "wait_ret e = Some (fork_ret e, status)"
    and "WIFEXITED status" and "WEXITSTATUS status = S" and "S \<noteq> 0"
    and "writelen (snd (popen2 e cmd argv input inlen out outlen)) < inlen"
  shows "fst (popen2 e cmd argv input inlen out outlen) = Returned (- S)
       \<and> (S \<noteq> 1 \<longrightarrow> fst (popen2 e cmd argv input inlen out outlen) \<noteq> Returned (- 1))"
proof -
  obtain st where st: "popen2 e cmd argv input inlen out outlen = reap e (fork_ret e) inlen st"
    using popen2_hup_reaps [OF assms(1-6)] by blast
  have "fst (reap e (fork_ret e) inlen st) = Returned (- S)"
    using reap_exit_status [OF assms(7,8)] assms(9,10) by simp
  with st show ?thesis by simp
qed

text \<open>
  A child that exits with status 3 without reading its five bytes of input, before the
  first \<open>poll\<close>: the \<open>write\<close> fails, the cursor stays at 0, and the call returns -3.
\<close>

theorem popen2_exit_status_before_incomplete_write_witness:
  "hangup_reported (env_of [poll_ret POLLHUP (POLLOUT OR POLLERR) WErr (RData [])] (W_EXITCODE 3))
   \<and> writes_return (env_of [poll_ret POLLHUP (POLLOUT OR POLLERR) WErr (RData [])] (W_EXITCODE 3))
   \<and> writelen (snd (popen2 (env_of [poll_ret POLLHUP (POLLOUT OR POLLERR) WErr (RData [])] (W_EXITCODE 3))
                  ''sh'' (Some [''sh'', ''-c'', ''exit 3'']) (mem_of ''hello'') 5 (mem_of []) 10)) < 5
   \<and> fst (popen2 (env_of [poll_ret POLLHUP (POLLOUT OR POLLERR) WErr (RData [])] (W_EXITCODE 3))
            ''sh'' (Some [''sh'', ''-c'', ''exit 3'']) (mem_of ''hello'') 5 (mem_of []) 10) = Returned (- 3)"
proof -
  let ?e = "env_of [poll_ret POLLHUP (POLLOUT OR POLLERR) WErr (RData [])] (W_EXITCODE 3)"
  let ?R = "popen2 ?e ''sh'' (Some [''sh'', ''-c'', ''exit 3'']) (mem_of ''hello'') 5 (mem_of []) 10"
  have h: "hangup_reported ?e" "writes_return ?e"
    by (simp_all add: hangup_reported_def writes_return_def env_of_def poll_ret_def POLLHUP_def)
  have p: "pipe_in ?e = Some (3, 4)" "pipe_out ?e = Some (5, 6)" "0 \<le> fst (5::int, 6::int)"
    "0 < fork_ret ?e" "wait_ret ?e = Some (fork_ret ?e, W_EXITCODE 3)"
    by (simp_all add: env_of_def)
  have s: "WIFEXITED (W_EXITCODE 3)" "WEXITSTATUS (W_EXITCODE 3) = 3" "(3::int) \<noteq> 0"
    by (simp_all add: WIFEXITED_def WEXITSTATUS_def W_EXITCODE_def)
  have w: "writelen (snd ?R) < 5"
    by (simp add: model_defs)
  from popen2_exit_status_before_incomplete_write [OF p(1-4) h p(5) s w] h w
  show ?thesis by simp
qed

section \<open>Reaping\<close>





lemma reap_trace:
  "trace (snd (reap e pid inlen st)) =
     SysWaitpid pid # SysClose (stdout_fd0 st) #
       (if 0 \<le> stdin_fd1 st then [SysClose (stdin_fd1 st)] else []) @ trace st"
  by (simp add: reap_def Let_def log_call_def split: option.splits prod.splits)





section \<open>Descriptors left open\<close>

text \<open>Once the child exists, a call that returns has closed all four descriptors.\<close>

lemma write_leg_fd_inv:
  "fd_inv o0 st \<Longrightarrow> fd_inv o0 (fst (loop_state (write_leg input inlen st w re1)))"
  by (auto simp: write_leg_def fd_inv_def log_call_def Let_def split: if_splits option.splits)

lemma read_leg_fd_inv:
  "fd_inv o0 st \<Longrightarrow> fd_inv o0 (fst (loop_state (read_leg outlen st r re0)))"
  by (auto simp: read_leg_def fd_inv_def log_call_def Let_def split: if_splits prod.splits)

lemma pump_step_fd_inv:
  assumes "fd_inv o0 st"
  shows "fd_inv o0 (loop_state (pump_step input inlen outlen st r))"
proof -
  let ?st1 = "polled st r"
  let ?w = "write_leg input inlen ?st1 (wr r) (poll_revents (fds1_fd st) (rev1 r))"
  have 1: "fd_inv o0 ?st1"
    using assms by (auto simp: fd_inv_def polled_def log_call_def split: if_splits)
  have r': "fd_inv o0 (s\<lparr>readlen := v\<rparr>) = fd_inv o0 s" for s v
    by (simp add: fd_inv_def)
  note w = write_leg_fd_inv [OF 1, of input inlen "wr r" "poll_revents (fds1_fd st) (rev1 r)"]
  show ?thesis
    using 1 w read_leg_fd_inv [OF w, of outlen "rd r" "poll_revents (stdout_fd0 st) (rev0 r)"]
    by (auto simp: pump_step_def Let_def r' split: loop.splits prod.splits)
qed

lemma pump_fd_inv:
  "fd_inv o0 st \<Longrightarrow> fd_inv o0 (loop_state (pump input inlen outlen st rs))"
proof (induction rs arbitrary: st)
  case Nil
  then show ?case by simp
next
  case (Cons r rs)
  from pump_step_fd_inv [OF Cons.prems, of input inlen outlen r] Cons.IH
  show ?case
    by (cases "pump_step input inlen outlen st r") simp_all
qed

lemma popen2_parent_closes_all:
  assumes "pipe_in e = Some (i0, i1)" and "pipe_out e = Some (o0, o1)"
    and "0 \<le> i1" and "0 < fork_ret e"
    and "fst (popen2 e cmd argv input inlen out outlen) = Returned v"
  shows "open_fds (trace (snd (popen2 e cmd argv input inlen out outlen))) = []"
proof -
  let ?st0 = "parent_init (i0, i1) (o0, o1)
                (start out [SysFork (fork_ret e), SysPipe (fst (o0, o1)) (snd (o0, o1)),
                            SysPipe (fst (i0, i1)) (snd (i0, i1))])"
  let ?L = "pump input inlen outlen ?st0 (rounds e)"
  note R = popen2_parent [OF assms(1,2,4), of cmd argv input inlen out outlen]
  with assms(5) obtain st where L: "?L = Break st"
    by (cases ?L) simp_all
  have "fd_inv o0 ?st0"
    using assms(3) by (auto simp: fd_inv_def parent_init_def start_def log_call_def Let_def)
  from pump_fd_inv [OF this, of input inlen outlen "rounds e"] L
  have "fd_inv o0 st" by simp
  then have "set (open_fds (trace (snd (reap e (fork_ret e) inlen st)))) = {}"
    unfolding reap_trace by (auto simp: fd_inv_def split: if_splits)
  then show ?thesis
    unfolding R L by simp
qed

text \<open>
  C8. The claim fails on the code. When \<open>fork\<close> fails, line 72 returns -1 with all four
  pipe descriptors still open; when the second \<open>pipe\<close> fails, line 62 returns -1 with
  the two descriptors of the first pipe still open.
\<close>

theorem popen2_fork_failure_leaks:
  "popen2 (env_of [] 0\<lparr>fork_ret := - 1\<rparr>) ''cat'' None (mem_of ''hello'') 5 (mem_of []) 10
     = (Returned (- 1), start (mem_of []) [SysFork (- 1), SysPipe 5 6, SysPipe 3 4])
   \<and> open_fds (trace (snd (popen2 (env_of [] 0\<lparr>fork_ret := - 1\<rparr>)
                               ''cat'' None (mem_of ''hello'') 5 (mem_of []) 10))) = [5, 6, 3, 4]
   \<and> open_fds (trace (snd (popen2 (env_of [] 0\<lparr>pipe_out := None\<rparr>)
                               ''cat'' None (mem_of ''hello'') 5 (mem_of []) 10))) = [3, 4]"
  by (simp add: popen2_def env_of_def start_def Let_def)


section \<open>Output that reaches the capacity\<close>

text \<open>
  C2. The claim fails on the code. With capacity 3, no input, and a child that writes
  six bytes and exits with status 0: the first pass closes the stdin write end, the
  second finds the six bytes and the hang-up, the read fills the buffer, the loop is
  left through \<open>Output too long\<close> (lines 161-164, which leave \<open>readlen\<close> as it is), and
  \<open>popen2\<close> returns 3.
\<close>

theorem popen2_overflow_returns_capacity:
  "fst (popen2 (env_of [poll_ret 0 POLLOUT WErr RErr,
                        poll_ret (POLLIN OR POLLHUP) 0 WErr (RData ''abcdef'')] 0)
          ''printf'' (Some [''printf'', ''abcdef'']) (mem_of []) 0 (mem_of []) 3) = Returned 3
   \<and> rev (trace (snd (popen2 (env_of [poll_ret 0 POLLOUT WErr RErr,
                        poll_ret (POLLIN OR POLLHUP) 0 WErr (RData ''abcdef'')] 0)
          ''printf'' (Some [''printf'', ''abcdef'']) (mem_of []) 0 (mem_of []) 3)))
       = [SysPipe 3 4, SysPipe 5 6, SysFork 100, SysClose 3, SysClose 6,
          SysPoll 5 4 1 0 POLLOUT, SysClose 4,
          SysPoll 5 (- 1) 1 (POLLIN OR POLLHUP) 0, SysRead 5 0 3 3,
          SysClose 5, SysWaitpid 100]"
  by (simp add: model_defs)

section \<open>The output cursor and the output buffer\<close>

lemma size_t_le: "0 \<le> c \<Longrightarrow> int (size_t c) \<le> c"
  by (simp add: size_t_def zmod_le_nonneg_dividend)

lemma sys_read_le:
  assumes "0 \<le> c" and "sys_read r c = (n, bs)"
  shows "n \<le> c \<and> (0 \<le> n \<longrightarrow> n = int (length bs)) \<and> int (length bs) \<le> c"
proof (cases r)
  case RErr
  with assms show ?thesis by (simp add: sys_read_def)
next
  case (RData avail)
  have "int (min (length avail) (size_t c)) \<le> c"
    using size_t_le [OF assms(1)] by linarith
  with assms RData show ?thesis by (auto simp: sys_read_def Let_def)
qed

lemma store_beyond:
  assumes "int off + int (length bs) \<le> outlen" and "nat outlen \<le> i"
  shows "store m off bs i = m i"
  using assms by (simp add: store_def) linarith

lemma write_leg_rd_inv:
  assumes "rd_inv out outlen st"
  shows "write_leg input inlen st w re1 = Continue (st', re') \<Longrightarrow> rd_inv out outlen st'"
    and "write_leg input inlen st w re1 = Break (st', re') \<Longrightarrow> rd_fin out outlen st'"
    and "write_leg input inlen st w re1 = Stuck (st', re') \<Longrightarrow> rd_inv out outlen st'"
  using assms
  by (auto simp: write_leg_def Let_def log_call_def rd_inv_def rd_fin_def
        split: if_splits option.splits)

lemma read_leg_rd_inv:
  assumes "rd_inv out outlen st" and "0 \<le> outlen"
  shows "read_leg outlen st r re0 = Continue (st', re') \<Longrightarrow> rd_inv out outlen st'"
    and "read_leg outlen st r re0 = Break (st', re') \<Longrightarrow> rd_fin out outlen st'"
proof -
  obtain n bs where nb: "sys_read r (outlen - readlen st) = (n, bs)"
    by (cases "sys_read r (outlen - readlen st)")
  have c: "0 \<le> outlen - readlen st"
    using assms by (auto simp: rd_inv_def rd_fin_def)
  note le = sys_read_le [OF c nb]
  have beyond: "\<forall>i. nat outlen \<le> i \<longrightarrow> store (output_mem st) (nat (readlen st)) bs i = out i"
  proof (intro allI impI)
    fix i assume i: "nat outlen \<le> i"
    have "int (nat (readlen st)) + int (length bs) \<le> outlen"
      using le assms(1) by (simp add: rd_inv_def)
    from store_beyond [OF this i] assms(1) i show "store (output_mem st) (nat (readlen st)) bs i = out i"
      by (simp add: rd_inv_def rd_fin_def)
  qed
  show "read_leg outlen st r re0 = Continue (st', re') \<Longrightarrow> rd_inv out outlen st'"
    using assms nb le beyond
    by (auto simp: read_leg_def Let_def log_call_def rd_inv_def rd_fin_def split: if_splits)
  show "read_leg outlen st r re0 = Break (st', re') \<Longrightarrow> rd_fin out outlen st'"
    using assms nb le beyond
    by (auto simp: read_leg_def Let_def log_call_def rd_inv_def rd_fin_def split: if_splits)
qed


lemma pump_step_BreakE:
  assumes "pump_step input inlen outlen st r = Break st'"
  obtains
    (poll_error) "polln r < 0"
      and "st' = (polled st r)\<lparr>readlen := - 1\<rparr>"
  | (write_break) re where "0 \<le> polln r"
      and "write_leg input inlen (polled st r) (wr r)
             (poll_revents (fds1_fd st) (rev1 r)) = Break (st', re)"
  | (stdin_event) st2 re where "0 \<le> polln r"
      and "write_leg input inlen (polled st r) (wr r)
             (poll_revents (fds1_fd st) (rev1 r)) = Continue (st2, re)"
      and "re \<noteq> 0" and "st' = st2\<lparr>readlen := - 1\<rparr>"
  | (read_break) st2 re where "0 \<le> polln r"
      and "write_leg input inlen (polled st r) (wr r)
             (poll_revents (fds1_fd st) (rev1 r)) = Continue (st2, 0)"
      and "read_leg outlen st2 (rd r) (poll_revents (stdout_fd0 st) (rev0 r)) = Break (st', re)"
  | (hangup) st2 where "0 \<le> polln r"
      and "write_leg input inlen (polled st r) (wr r)
             (poll_revents (fds1_fd st) (rev1 r)) = Continue (st2, 0)"
      and "read_leg outlen st2 (rd r) (poll_revents (stdout_fd0 st) (rev0 r)) = Continue (st', POLLHUP)"
  | (stdout_event) st2 st3 re where "0 \<le> polln r"
      and "write_leg input inlen (polled st r) (wr r)
             (poll_revents (fds1_fd st) (rev1 r)) = Continue (st2, 0)"
      and "read_leg outlen st2 (rd r) (poll_revents (stdout_fd0 st) (rev0 r)) = Continue (st3, re)"
      and "re \<noteq> POLLHUP" and "re \<noteq> 0" and "st' = st3\<lparr>readlen := - 1\<rparr>"
  using assms unfolding pump_step_def Let_def
  by (simp split: if_splits loop.splits prod.splits)

lemma pump_served_invariant:
  assumes "I st" and "served P input inlen outlen st rs"
    and "\<And>s r s'. I s \<Longrightarrow> P s r \<Longrightarrow> pump_step input inlen outlen s r = Continue s' \<Longrightarrow> I s'"
    and "\<And>s r s'. I s \<Longrightarrow> P s r \<Longrightarrow> pump_step input inlen outlen s r = Break s' \<Longrightarrow> F s'"
    and "\<And>s r s'. I s \<Longrightarrow> P s r \<Longrightarrow> pump_step input inlen outlen s r = Stuck s' \<Longrightarrow> G s'"
  shows "(\<forall>s'. pump input inlen outlen st rs = Continue s' \<longrightarrow> I s')
       \<and> (\<forall>s'. pump input inlen outlen st rs = Break s' \<longrightarrow> F s')
       \<and> (\<forall>s'. pump input inlen outlen st rs = Stuck s' \<longrightarrow> G s')"
  using assms(1,2)
proof (induction rs arbitrary: st)
  case Nil
  then show ?case by simp
next
  case (Cons r rs)
  from Cons.prems have P: "P st r" by simp
  show ?case
  proof (cases "pump_step input inlen outlen st r")
    case (Break s)
    with assms(4) [OF Cons.prems(1) P] show ?thesis by simp
  next
    case (Stuck s)
    with assms(5) [OF Cons.prems(1) P] show ?thesis by simp
  next
    case (Continue s)
    with assms(3) [OF Cons.prems(1) P] have "I s" by simp
    moreover from Cons.prems(2) Continue have "served P input inlen outlen s rs" by simp
    ultimately show ?thesis using Cons.IH Continue by simp
  qed
qed

lemma served_True: "served (\<lambda>_ _. True) input inlen outlen st rs"
  by (induction rs arbitrary: st) (auto split: loop.splits)

lemma rd_inv_poll: "rd_inv out outlen (polled st r) = rd_inv out outlen st"
  by (simp add: rd_inv_def rd_fin_def polled_def log_call_def)

lemma rd_inv_fail: "rd_inv out outlen st \<Longrightarrow> 0 \<le> outlen \<Longrightarrow> rd_fin out outlen (st\<lparr>readlen := - 1\<rparr>)"
  by (simp add: rd_inv_def rd_fin_def)

lemma rd_inv_fin: "rd_inv out outlen st \<Longrightarrow> 0 \<le> outlen \<Longrightarrow> rd_fin out outlen st"
  by (auto simp add: rd_inv_def rd_fin_def)

lemma pump_step_rd_inv:
  assumes "rd_inv out outlen st" and "0 \<le> outlen"
  shows "pump_step input inlen outlen st r = Continue st' \<Longrightarrow> rd_inv out outlen st'"
    and "pump_step input inlen outlen st r = Break st' \<Longrightarrow> rd_fin out outlen st'"
    and "pump_step input inlen outlen st r = Stuck st' \<Longrightarrow> rd_fin out outlen st'"
proof -
  let ?st1 = "polled st r"
  have i1: "rd_inv out outlen ?st1"
    using assms(1) by (simp add: rd_inv_poll)
  show "rd_inv out outlen st'" if "pump_step input inlen outlen st r = Continue st'"
    using that
  proof (rule pump_step_ContinueE)
    fix st2
    assume "write_leg input inlen ?st1 (wr r) (poll_revents (fds1_fd st) (rev1 r)) = Continue (st2, 0)"
      and r: "read_leg outlen st2 (rd r) (poll_revents (stdout_fd0 st) (rev0 r)) = Continue (st', 0)"
    then have "rd_inv out outlen st2" using write_leg_rd_inv(1) [OF i1] by blast
    from read_leg_rd_inv(1) [OF this assms(2) r] show ?thesis .
  qed
  show "rd_fin out outlen st'" if "pump_step input inlen outlen st r = Break st'"
    using that
  proof (cases rule: pump_step_BreakE)
    case poll_error
    then show ?thesis using rd_inv_fail [OF i1 assms(2)] by simp
  next
    case (write_break re)
    then show ?thesis using write_leg_rd_inv(2) [OF i1] by blast
  next
    case (stdin_event st2 re)
    then have "rd_inv out outlen st2" using write_leg_rd_inv(1) [OF i1] by blast
    from rd_inv_fail [OF this assms(2)] stdin_event show ?thesis by simp
  next
    case (read_break st2 re)
    then have "rd_inv out outlen st2" using write_leg_rd_inv(1) [OF i1] by blast
    from read_leg_rd_inv(2) [OF this assms(2)] read_break show ?thesis by blast
  next
    case (hangup st2)
    then have "rd_inv out outlen st2" using write_leg_rd_inv(1) [OF i1] by blast
    from read_leg_rd_inv(1) [OF this assms(2)] hangup have "rd_inv out outlen st'" by blast
    then show ?thesis using assms(2) by (rule rd_inv_fin)
  next
    case (stdout_event st2 st3 re)
    then have "rd_inv out outlen st2" using write_leg_rd_inv(1) [OF i1] by blast
    from read_leg_rd_inv(1) [OF this assms(2)] stdout_event have "rd_inv out outlen st3" by blast
    from rd_inv_fail [OF this assms(2)] stdout_event show ?thesis by simp
  qed
  show "rd_fin out outlen st'" if "pump_step input inlen outlen st r = Stuck st'"
  proof -
    from that obtain re where
      "write_leg input inlen ?st1 (wr r) (poll_revents (fds1_fd st) (rev1 r)) = Stuck (st', re)"
      using read_leg_not_stuck [of outlen _ "rd r" "poll_revents (stdout_fd0 st) (rev0 r)"]
      unfolding pump_step_def Let_def
      by (auto split: if_splits loop.splits prod.splits)
    from write_leg_rd_inv(3) [OF i1 this] show ?thesis
      using assms(2) by (rule rd_inv_fin)
  qed
qed

lemma pump_rd_fin:
  assumes "rd_inv out outlen st" and "0 \<le> outlen"
  shows "rd_fin out outlen (loop_state (pump input inlen outlen st rs))"
proof -
  have "(\<forall>s'. pump input inlen outlen st rs = Continue s' \<longrightarrow> rd_inv out outlen s')
       \<and> (\<forall>s'. pump input inlen outlen st rs = Break s' \<longrightarrow> rd_fin out outlen s')
       \<and> (\<forall>s'. pump input inlen outlen st rs = Stuck s' \<longrightarrow> rd_fin out outlen s')"
    using assms(1) served_True
  proof (rule pump_served_invariant)
    fix s r s'
    assume "rd_inv out outlen s"
    then show "pump_step input inlen outlen s r = Continue s' \<Longrightarrow> rd_inv out outlen s'"
      and "pump_step input inlen outlen s r = Break s' \<Longrightarrow> rd_fin out outlen s'"
      and "pump_step input inlen outlen s r = Stuck s' \<Longrightarrow> rd_fin out outlen s'"
      using pump_step_rd_inv [OF _ assms(2)] by blast+
  qed
  then show ?thesis
    using rd_inv_fin [OF _ assms(2)] by (cases "pump input inlen outlen st rs") auto
qed

lemma reap_rd_fin: "rd_fin out outlen st \<Longrightarrow> rd_fin out outlen (snd (reap e pid inlen st))"
  by (simp add: rd_fin_def reap_def Let_def log_call_def split: option.splits prod.splits)

lemma start_rd_inv: "0 \<le> outlen \<Longrightarrow> \<not> has_read tr \<Longrightarrow> reads_ok outlen tr \<Longrightarrow> rcursor tr = 0 \<Longrightarrow> rd_inv out outlen (start out tr)"
  by (simp add: rd_inv_def rd_fin_def start_def)

lemma popen2_rd_fin:
  assumes "0 \<le> outlen"
  shows "rd_fin out outlen (snd (popen2 e cmd argv input inlen out outlen))"
proof (cases "pipe_in e")
  case None
  then show ?thesis
    using rd_inv_fin [OF start_rd_inv [OF assms]] assms by (simp add: popen2_def)
next
  case sin: (Some sin)
  show ?thesis
  proof (cases "pipe_out e")
    case None
    then show ?thesis
      using sin rd_inv_fin [OF start_rd_inv [OF assms]] assms by (simp add: popen2_def)
  next
    case sout: (Some sout)
    let ?tr = "[SysFork (fork_ret e), SysPipe (fst sout) (snd sout), SysPipe (fst sin) (snd sin)]"
    have s: "rd_inv out outlen (start out ?tr)"
      using assms by (intro start_rd_inv) simp_all
    consider (fail) "fork_ret e < 0" | (child) "fork_ret e = 0" | (parent) "0 < fork_ret e"
      by linarith
    then show ?thesis
    proof cases
      case fail
      then show ?thesis
        using sin sout rd_inv_fin [OF s assms] by (simp add: popen2_def Let_def)
    next
      case child
      have "rd_fin out outlen (snd (child e cmd argv sin sout (start out ?tr)))"
        using rd_inv_fin [OF s assms] by (simp add: child_def Let_def log_call_def rd_fin_def)
      then show ?thesis
        using sin sout child by (simp add: popen2_def Let_def)
    next
      case parent
      have "rd_inv out outlen (parent_init sin sout (start out ?tr))"
        using s by (simp add: parent_init_def Let_def log_call_def rd_inv_def rd_fin_def start_def)
      from pump_rd_fin [OF this assms, of input inlen "rounds e"]
      show ?thesis
        unfolding popen2_parent [OF sin sout parent]
        by (cases "pump input inlen outlen (parent_init sin sout (start out ?tr)) (rounds e)")
           (simp_all add: reap_rd_fin)
    qed
  qed
qed

text \<open>
  C3. For a capacity \<open>outlen \<ge> 0\<close> and every environment: when the call stops, and after
  any number of returns of \<open>poll\<close> before that, \<open>readlen\<close> is at most \<open>outlen\<close>; every
  \<open>read\<close> was requested at the cursor for \<open>outlen - readlen\<close> bytes and returned no more;
  no \<open>read\<close> was made after the cursor had reached \<open>outlen\<close>; and the memory at
  \<open>output\<close> from offset \<open>outlen\<close> on is what it was before the call.
\<close>

theorem popen2_output_bounded:
  assumes "0 \<le> outlen"
  shows "readlen (snd (popen2 e cmd argv input inlen out outlen)) \<le> outlen
       \<and> (\<forall>k. readlen (snd (popen2 (e\<lparr>rounds := take k (rounds e)\<rparr>) cmd argv input inlen out outlen))
               \<le> outlen)
       \<and> reads_ok outlen (trace (snd (popen2 e cmd argv input inlen out outlen)))
       \<and> (\<forall>i. nat outlen \<le> i \<longrightarrow> output_mem (snd (popen2 e cmd argv input inlen out outlen)) i = out i)"
  using popen2_rd_fin [OF assms, of out e cmd argv input inlen]
    popen2_rd_fin [OF assms, of out _ cmd argv input inlen]
  by (simp add: rd_fin_def)

text \<open>
  Capacity 3 and a child that has six bytes in the pipe: three bytes are stored, the
  cursor stops at 3 and the byte at offset 3 keeps its value.
\<close>

theorem popen2_output_bounded_witness:
  "(0::int) \<le> 3
   \<and> readlen (snd (popen2 (env_of [poll_ret POLLIN POLLOUT WErr (RData ''abcdef'')] 0)
                  ''printf'' None (mem_of []) 0 (mem_of ''zzzzzz'') 3)) = 3
   \<and> reads_ok 3 (trace (snd (popen2 (env_of [poll_ret POLLIN POLLOUT WErr (RData ''abcdef'')] 0)
                  ''printf'' None (mem_of []) 0 (mem_of ''zzzzzz'') 3)))
   \<and> bytes (output_mem (snd (popen2 (env_of [poll_ret POLLIN POLLOUT WErr (RData ''abcdef'')] 0)
                  ''printf'' None (mem_of []) 0 (mem_of ''zzzzzz'') 3))) 0 3 = ''abc''
   \<and> output_mem (snd (popen2 (env_of [poll_ret POLLIN POLLOUT WErr (RData ''abcdef'')] 0)
                  ''printf'' None (mem_of []) 0 (mem_of ''zzzzzz'') 3)) 3 = CHR ''z''"
proof -
  let ?R = "popen2 (env_of [poll_ret POLLIN POLLOUT WErr (RData ''abcdef'')] 0)
                  ''printf'' None (mem_of []) 0 (mem_of ''zzzzzz'') 3"
  have h: "(0::int) \<le> 3" by simp
  have r: "readlen (snd ?R) = 3"
    by (simp add: model_defs)
  have b: "bytes (output_mem (snd ?R)) 0 3 = ''abc''"
    by (simp add: model_defs upt_rec)
  have z: "mem_of ''zzzzzz'' 3 = CHR ''z''"
    by (simp add: mem_of_def)
  from popen2_output_bounded [OF h, of "env_of [poll_ret POLLIN POLLOUT WErr (RData ''abcdef'')] 0"
      "''printf''" None "mem_of []" 0 "mem_of ''zzzzzz''"] r b z
  show ?thesis by simp
qed


section \<open>Closing the write end of the stdin pipe\<close>


















section \<open>What is read from the child\<close>

lemma bytes_store:
  "bytes (store m off bs) 0 (off + length bs) = bytes m 0 off @ bs"
proof (rule nth_equalityI)
  show "length (bytes (store m off bs) 0 (off + length bs)) = length (bytes m 0 off @ bs)"
    by (simp add: bytes_def)
next
  fix i assume "i < length (bytes (store m off bs) 0 (off + length bs))"
  then have i: "i < off + length bs" by (simp add: bytes_def)
  show "bytes (store m off bs) 0 (off + length bs) ! i = (bytes m 0 off @ bs) ! i"
    using i by (auto simp: bytes_def store_def nth_append)
qed

lemma size_t_small: "0 \<le> c \<Longrightarrow> c < 2 ^ 64 \<Longrightarrow> size_t c = nat c"
  by (simp add: size_t_def)


lemma read_leg_data:
  assumes inv: "out_inv data st" and cap: "int (length data) \<le> outlen" "outlen < 2 ^ 64"
    and av: "take (length avail) (drop (nat (readlen st)) data) = avail"
    and st': "st' = st\<lparr>output_mem := store (output_mem st) (nat (readlen st)) avail,
                       trace := SysRead (stdout_fd0 st) (readlen st) (outlen - readlen st)
                                  (int (length avail)) # trace st,
                       readlen := readlen st + int (length avail)\<rparr>"
  shows "sys_read (RData avail) (outlen - readlen st) = (int (length avail), avail)"
    and "out_inv data st'"
    and "readlen st' \<ge> outlen \<or> nat (readlen st) + length avail = length data \<Longrightarrow> out_fin data st'"
proof -
  have "length (take (length avail) (drop (nat (readlen st)) data)) = length avail"
    by (simp only: av)
  then have "length avail \<le> length data - nat (readlen st)"
    by simp
  then have len: "nat (readlen st) + length avail \<le> length data"
    using inv unfolding out_inv_def by linarith
  have c: "0 \<le> outlen - readlen st" "outlen - readlen st < 2 ^ 64"
    using inv cap len by (simp_all add: out_inv_def)
  have "length avail \<le> nat (outlen - readlen st)"
    using len cap inv by (simp add: out_inv_def)
  then show "sys_read (RData avail) (outlen - readlen st) = (int (length avail), avail)"
    by (simp add: sys_read_def Let_def size_t_small [OF c])
  have n: "nat (readlen st + int (length avail)) = nat (readlen st) + length avail"
    using inv by (simp add: out_inv_def nat_add_distrib)
  have "bytes (store (output_mem st) (nat (readlen st)) avail) 0 (nat (readlen st) + length avail)
          = take (nat (readlen st)) data @ avail"
    using inv by (simp add: bytes_store out_inv_def)
  also have "\<dots> = take (nat (readlen st) + length avail) data"
    using av by (simp add: take_add)
  finally have b: "bytes (store (output_mem st) (nat (readlen st)) avail) 0
                     (nat (readlen st) + length avail)
                   = take (nat (readlen st) + length avail) data" .
  show i': "out_inv data st'"
    using inv len b by (simp add: st' out_inv_def n)
  show "out_fin data st'"
    if "readlen st' \<ge> outlen \<or> nat (readlen st) + length avail = length data"
  proof -
    from that have e: "nat (readlen st) + length avail = length data"
      using len cap inv by (auto simp: st' out_inv_def)
    have "0 \<le> readlen st" using inv by (simp add: out_inv_def)
    with e have "readlen st + int (length avail) = int (length data)" by linarith
    with e b show ?thesis
      by (simp add: st' out_fin_def)
  qed
qed

lemma read_leg_emits:
  assumes inv: "out_inv data st" and cap: "int (length data) \<le> outlen" "outlen < 2 ^ 64"
    and em: "emits data st0 r" and rl: "readlen st0 = readlen st"
  shows "case read_leg outlen st (rd r) (rev0 r) of
           Continue (st', re) \<Rightarrow> re = 0 \<and> out_inv data st' \<or> re = POLLHUP \<and> out_fin data st'
         | Break (st', re) \<Rightarrow> out_fin data st'
         | Stuck x \<Rightarrow> False"
proof -
  from em consider (none) "rev0 r = 0"
    | (data) avail where "rev0 r = POLLIN" "rd r = RData avail"
        "take (length avail) (drop (nat (readlen st)) data) = avail"
    | (hup) "rev0 r = POLLHUP" "length data \<le> nat (readlen st)"
    | (last) "rev0 r = POLLIN OR POLLHUP" "rd r = RData (drop (nat (readlen st)) data)"
    unfolding emits_def rl by (auto split: rresp.splits)
  then show ?thesis
  proof cases
    case none
    then show ?thesis using inv by (simp add: read_leg_def)
  next
    case (data avail)
    let ?st' = "st\<lparr>output_mem := store (output_mem st) (nat (readlen st)) avail,
                   trace := SysRead (stdout_fd0 st) (readlen st) (outlen - readlen st)
                              (int (length avail)) # trace st,
                   readlen := readlen st + int (length avail)\<rparr>"
    note f = read_leg_data [OF inv cap data(3), of ?st', OF refl]
    show ?thesis
      using f(2,3) by (simp add: read_leg_def data f(1) log_call_def POLLIN_def Let_def)
  next
    case hup
    with inv have "out_fin data st"
      by (auto simp: out_inv_def out_fin_def)
    then show ?thesis
      by (simp add: read_leg_def hup POLLIN_def POLLHUP_def)
  next
    case last
    let ?avail = "drop (nat (readlen st)) data"
    let ?st' = "st\<lparr>output_mem := store (output_mem st) (nat (readlen st)) ?avail,
                   trace := SysRead (stdout_fd0 st) (readlen st) (outlen - readlen st)
                              (int (length ?avail)) # trace st,
                   readlen := readlen st + int (length ?avail)\<rparr>"
    have av: "take (length ?avail) (drop (nat (readlen st)) data) = ?avail" by simp
    note f = read_leg_data [OF inv cap av, of ?st', OF refl]
    have "nat (readlen st) + length ?avail = length data"
      using inv by (simp add: out_inv_def)
    with f(3) have fin: "out_fin data ?st'" by blast
    show ?thesis
      using fin
      by (simp add: read_leg_def last f(1) log_call_def POLLIN_def POLLHUP_def Let_def
               del: length_drop)
  qed
qed


lemma no_read_closed_before: "\<not> has_read tr \<Longrightarrow> closed_before_reads fd tr"
  by (induction tr rule: has_read.induct) simp_all

lemma pump_step_cl_inv:
  assumes "cl_inv i1 st" and "stdin_writable st r" and "0 \<le> i1"
  shows "cl_inv i1 (loop_state (pump_step input 0 outlen st r))"
proof -
  let ?st1 = "polled st r"
  let ?w = "write_leg input 0 ?st1 (wr r) (poll_revents (fds1_fd st) (rev1 r))"
  have w: "\<exists>st2 re. ?w = Continue (st2, re) \<and> closed_before_reads i1 (trace st2)
             \<and> SysClose i1 \<in> set (trace st2) \<and> fds1_fd st2 < 0"
    using assms
    by (auto simp: write_leg_def poll_revents_def stdin_writable_def cl_inv_def polled_def
          log_call_def Let_def no_read_closed_before split: if_splits)
  then obtain st2 re where w2: "?w = Continue (st2, re)"
    and c: "closed_before_reads i1 (trace st2)"
    and m: "SysClose i1 \<in> set (trace st2)" and f: "fds1_fd st2 < 0"
    by blast
  have r: "cl_inv i1 (fst (loop_state (read_leg outlen st2 (rd r) (poll_revents (stdout_fd0 st) (rev0 r)))))"
    using c m f
    by (auto simp: read_leg_def cl_inv_def log_call_def Let_def split: if_splits prod.splits)
  have r': "cl_inv i1 (s\<lparr>readlen := v\<rparr>) = cl_inv i1 s" for s v
    by (simp add: cl_inv_def)
  have 1: "cl_inv i1 (?st1\<lparr>readlen := - 1\<rparr>)"
    using assms(1) by (auto simp: cl_inv_def polled_def log_call_def split: if_splits)
  have 2: "cl_inv i1 st2"
    using c m f by (simp add: cl_inv_def)
  show ?thesis
    using w2 r 1 2
    by (auto simp: pump_step_def Let_def r' split: loop.splits prod.splits)
qed

lemma pump_cl_inv:
  assumes "cl_inv i1 st" and "served stdin_writable input 0 outlen st rs" and "0 \<le> i1"
  shows "cl_inv i1 (loop_state (pump input 0 outlen st rs))"
  using assms(1,2)
proof (induction rs arbitrary: st)
  case Nil
  then show ?case by simp
next
  case (Cons r rs)
  from Cons.prems have i: "stdin_writable st r" by simp
  from pump_step_cl_inv [OF Cons.prems(1) i assms(3), of input outlen] Cons.IH Cons.prems(2)
  show ?case
    by (cases "pump_step input 0 outlen st r") simp_all
qed

lemma read_leg_writelen:
  "writelen (fst (loop_state (read_leg outlen st r re0))) = writelen st"
  by (simp add: read_leg_def Let_def log_call_def split: prod.splits)

lemma out_inv_frame:
  "readlen st' = readlen st \<Longrightarrow> output_mem st' = output_mem st \<Longrightarrow> out_inv data st' = out_inv data st"
  by (simp add: out_inv_def)

lemma POLLHUP_nonzero: "POLLHUP \<noteq> 0"
  by (simp add: POLLHUP_def)

lemma pump_step_emits_idle:
  assumes inv: "out_inv data st" "writelen st = 0" "0 \<le> stdout_fd0 st"
    and P: "emits data st r" "stdin_idle st r"
    and cap: "int (length data) \<le> outlen" "outlen < 2 ^ 64"
  shows "case pump_step input 0 outlen st r of
           Continue s' \<Rightarrow> out_inv data s' \<and> writelen s' = 0 \<and> 0 \<le> stdout_fd0 s'
         | Break s' \<Rightarrow> out_fin data s' \<and> writelen s' = 0
         | Stuck s' \<Rightarrow> False"
proof -
  let ?st1 = "polled st r"
  let ?w = "write_leg input 0 ?st1 (wr r) (poll_revents (fds1_fd st) (rev1 r))"
  have "\<exists>st2. ?w = Continue (st2, 0) \<and> readlen st2 = readlen st \<and> output_mem st2 = output_mem st
             \<and> writelen st2 = 0 \<and> stdout_fd0 st2 = stdout_fd0 st"
    using inv(2) P(2)
    by (auto simp: write_leg_def poll_revents_def stdin_idle_def polled_def log_call_def
          POLLOUT_def Let_def)
  then obtain st2 where w2: "?w = Continue (st2, 0)" and f: "readlen st2 = readlen st"
    "output_mem st2 = output_mem st" "writelen st2 = 0" "stdout_fd0 st2 = stdout_fd0 st"
    by blast
  have i2: "out_inv data st2"
    using inv(1) out_inv_frame [OF f(1,2), of data] by simp
  let ?r = "read_leg outlen st2 (rd r) (rev0 r)"
  have rl: "case ?r of
           Continue (st', re) \<Rightarrow> re = 0 \<and> out_inv data st' \<or> re = POLLHUP \<and> out_fin data st'
         | Break (st', re) \<Rightarrow> out_fin data st'
         | Stuck x \<Rightarrow> False"
    by (rule read_leg_emits [OF i2 cap P(1)]) (simp add: f)
  have fr: "writelen (fst (loop_state ?r)) = 0" "stdout_fd0 (fst (loop_state ?r)) = stdout_fd0 st"
    by (simp_all add: read_leg_writelen read_leg_stdout_fd0 f)
  have p: "\<not> polln r < 0" using P(1) by (simp add: emits_def)
  have pr: "poll_revents (stdout_fd0 st) (rev0 r) = rev0 r"
    using inv(3) by (simp add: poll_revents_def)
  have ps: "pump_step input 0 outlen st r =
      (case ?r of
         Break (st3, re) \<Rightarrow> Break st3
       | Stuck (st3, re) \<Rightarrow> Stuck st3
       | Continue (st3, re) \<Rightarrow>
           if re = POLLHUP then Break st3
           else if re \<noteq> 0 then Break (st3\<lparr>readlen := - 1\<rparr>)
           else Continue st3)"
    unfolding pump_step_def Let_def w2 pr using p by simp
  show ?thesis
  proof (cases ?r)
    case (Break x)
    obtain st3 re where x: "x = (st3, re)" by (cases x)
    from rl fr show ?thesis
      unfolding ps Break x by simp
  next
    case (Stuck x)
    with rl show ?thesis by simp
  next
    case (Continue x)
    obtain st3 re where x: "x = (st3, re)" by (cases x)
    from rl fr inv(3) show ?thesis
      unfolding ps Continue x by (auto simp: POLLHUP_nonzero)
  qed
qed

lemma pump_emits_idle:
  assumes inv: "out_inv data st" "writelen st = 0" "0 \<le> stdout_fd0 st"
    and P: "served (emits data) input 0 outlen st rs" "served stdin_idle input 0 outlen st rs"
    and cap: "int (length data) \<le> outlen" "outlen < 2 ^ 64"
  shows "case pump input 0 outlen st rs of
           Continue s' \<Rightarrow> out_inv data s' \<and> writelen s' = 0 \<and> 0 \<le> stdout_fd0 s'
         | Break s' \<Rightarrow> out_fin data s' \<and> writelen s' = 0
         | Stuck s' \<Rightarrow> False"
  using inv P
proof (induction rs arbitrary: st)
  case Nil
  then show ?case by simp
next
  case (Cons r rs)
  from Cons.prems have P: "emits data st r" "stdin_idle st r" by simp_all
  note step = pump_step_emits_idle [OF Cons.prems(1-3) P cap, of input]
  show ?case
  proof (cases "pump_step input 0 outlen st r")
    case (Break s)
    with step show ?thesis by simp
  next
    case (Stuck s)
    with step show ?thesis by simp
  next
    case (Continue s)
    with step Cons.prems(4,5) Cons.IH [of s] show ?thesis by simp
  qed
qed


lemma pump_start_eq:
  "pipe_in e = Some sin \<Longrightarrow> pipe_out e = Some sout \<Longrightarrow>
   pump_start e out = parent_init sin sout
            (start out [SysFork (fork_ret e), SysPipe (fst sout) (snd sout),
                        SysPipe (fst sin) (snd sin)])"
  by (simp add: pump_start_def)

lemma reap_closed_before_reads:
  "closed_before_reads fd (trace (snd (reap e pid inlen st))) = closed_before_reads fd (trace st)"
  by (simp add: reap_trace)

lemma reap_success:
  assumes "wait_ret e = Some (pid, status)" and "WIFEXITED status" and "WEXITSTATUS status = 0"
    and "writelen st = inlen"
  shows "fst (reap e pid inlen st) = Returned (readlen st)"
    and "output_mem (snd (reap e pid inlen st)) = output_mem st"
  using assms by (simp_all add: reap_def Let_def log_call_def)

text \<open>
  C9, amended. Let the input length be 0 and the child be created, and let \<open>poll\<close>
  report the stdin write end writable as long as the parent holds it, as the kernel
  does for a pipe that holds no bytes. Then the write end is closed before any \<open>read\<close>
  from the child's stdout: the pass that finds it writable closes it in its write leg,
  before its read leg. If moreover \<open>poll\<close> reports nothing but writable for the write
  end, \<open>poll\<close> and \<open>read\<close> do not fail, the stdout read end is only ever reported
  readable or hung up, and the child writes \<open>data\<close> of at most \<open>outlen\<close> bytes, closes its
  stdout and exits with status 0, then \<open>popen2\<close> returns the length of \<open>data\<close> and the
  output buffer starts with \<open>data\<close>.
\<close>

theorem popen2_empty_input:
  assumes "pipe_in e = Some (i0, i1)" and "pipe_out e = Some (o0, o1)"
    and "0 \<le> i1" and "0 \<le> o0" and "0 < fork_ret e"
    and "served stdin_writable input 0 outlen (pump_start e out) (rounds e)"
    and "R = popen2 e cmd argv input 0 out outlen"
  shows "closed_before_reads i1 (trace (snd R))
       \<and> (served stdin_idle input 0 outlen (pump_start e out) (rounds e) \<and>
          served (emits data) input 0 outlen (pump_start e out) (rounds e) \<and> hangup_reported e \<and>
          wait_ret e = Some (fork_ret e, status) \<and> WIFEXITED status \<and> WEXITSTATUS status = 0 \<and>
          int (length data) \<le> outlen \<and> outlen < 2 ^ 31
          \<longrightarrow> fst R = Returned (int (length data))
              \<and> bytes (output_mem (snd R)) 0 (length data) = data)"
proof -
  let ?st0 = "pump_start e out"
  let ?L = "pump input 0 outlen ?st0 (rounds e)"
  have st0: "?st0 = parent_init (i0, i1) (o0, o1)
            (start out [SysFork (fork_ret e), SysPipe (fst (o0, o1)) (snd (o0, o1)),
                        SysPipe (fst (i0, i1)) (snd (i0, i1))])"
    using assms(1,2) by (rule pump_start_eq)
  have R: "R = (case ?L of Continue st' \<Rightarrow> (Blocked, st')
                | Stuck st' \<Rightarrow> (Blocked, st')
                | Break st' \<Rightarrow> reap e (fork_ret e) 0 st')"
    using popen2_parent [OF assms(1,2,5)] assms(7) st0 by simp
  have f0: "readlen ?st0 = 0" "writelen ?st0 = 0" "stdout_fd0 ?st0 = o0" "fds1_fd ?st0 = i1"
    "stdin_fd1 ?st0 = i1" "trace ?st0 = [SysClose o1, SysClose i0, SysFork (fork_ret e), SysPipe o0 o1, SysPipe i0 i1]"
    unfolding st0 by (simp_all add: parent_init_def start_def log_call_def Let_def)
  have "cl_inv i1 ?st0"
    using assms(3) by (simp add: cl_inv_def f0)
  from pump_cl_inv [OF this assms(6,3)]
  have "closed_before_reads i1 (trace (loop_state ?L))"
    by (simp add: cl_inv_def)
  then have part1: "closed_before_reads i1 (trace (snd R))"
    unfolding R by (cases ?L) (simp_all add: reap_closed_before_reads)
  have part2: "fst R = Returned (int (length data))
              \<and> bytes (output_mem (snd R)) 0 (length data) = data"
    if idle: "served stdin_idle input 0 outlen ?st0 (rounds e)"
      and em: "served (emits data) input 0 outlen ?st0 (rounds e)" and hup: "hangup_reported e"
      and wt: "wait_ret e = Some (fork_ret e, status)" "WIFEXITED status" "WEXITSTATUS status = 0"
      and cap: "int (length data) \<le> outlen" "outlen < 2 ^ 31"
  proof -
    have cap64: "outlen < 2 ^ 64" using cap(2) by simp
    have i0: "out_inv data ?st0"
      by (simp add: out_inv_def f0 bytes_def)
    have o: "0 \<le> stdout_fd0 ?st0" using assms(4) by (simp add: f0)
    note pe = pump_emits_idle [OF i0 f0(2) o em idle cap(1) cap64]
    obtain st where L: "?L = Break st"
      using pump_hup_or_stuck [OF o, of "rounds e" input 0 outlen] hup pe
      by (auto simp: hangup_reported_def)
    from pe L have fin: "out_fin data st" "writelen st = 0" by simp_all
    from reap_success [OF wt fin(2)] fin(1) L show ?thesis
      unfolding R by (simp add: out_fin_def)
  qed
  from part1 part2 show ?thesis by blast
qed

text \<open>
  \<open>echo -n hi\<close> with no input and capacity 10: the first pass closes the write end,
  the second reads \<open>hi\<close>, the third sees the hang-up.
\<close>

theorem popen2_empty_input_witness:
  "served stdin_writable (mem_of []) 0 10
      (pump_start (env_of [poll_ret 0 POLLOUT WErr RErr, poll_ret POLLIN 0 WErr (RData ''hi''),
                           poll_ret POLLHUP 0 WErr RErr] 0)
         (mem_of []))
      [poll_ret 0 POLLOUT WErr RErr, poll_ret POLLIN 0 WErr (RData ''hi''), poll_ret POLLHUP 0 WErr RErr]
   \<and> served (emits ''hi'') (mem_of []) 0 10
      (pump_start (env_of [poll_ret 0 POLLOUT WErr RErr, poll_ret POLLIN 0 WErr (RData ''hi''),
                           poll_ret POLLHUP 0 WErr RErr] 0)
         (mem_of []))
      [poll_ret 0 POLLOUT WErr RErr, poll_ret POLLIN 0 WErr (RData ''hi''), poll_ret POLLHUP 0 WErr RErr]
   \<and> served stdin_idle (mem_of []) 0 10
      (pump_start (env_of [poll_ret 0 POLLOUT WErr RErr, poll_ret POLLIN 0 WErr (RData ''hi''),
                           poll_ret POLLHUP 0 WErr RErr] 0)
         (mem_of []))
      [poll_ret 0 POLLOUT WErr RErr, poll_ret POLLIN 0 WErr (RData ''hi''), poll_ret POLLHUP 0 WErr RErr]
   \<and> closed_before_reads 4
        (trace (snd (popen2 (env_of [poll_ret 0 POLLOUT WErr RErr, poll_ret POLLIN 0 WErr (RData ''hi''),
                           poll_ret POLLHUP 0 WErr RErr] 0)
           ''echo'' (Some [''echo'', ''-n'', ''hi'']) (mem_of []) 0 (mem_of []) 10)))
   \<and> fst (popen2 (env_of [poll_ret 0 POLLOUT WErr RErr, poll_ret POLLIN 0 WErr (RData ''hi''),
                           poll_ret POLLHUP 0 WErr RErr] 0)
           ''echo'' (Some [''echo'', ''-n'', ''hi'']) (mem_of []) 0 (mem_of []) 10) = Returned 2
   \<and> bytes (output_mem (snd (popen2 (env_of [poll_ret 0 POLLOUT WErr RErr, poll_ret POLLIN 0 WErr (RData ''hi''),
                           poll_ret POLLHUP 0 WErr RErr] 0)
           ''echo'' (Some [''echo'', ''-n'', ''hi'']) (mem_of []) 0 (mem_of []) 10))) 0 2 = ''hi''"
proof -
  let ?rs = "[poll_ret 0 POLLOUT WErr RErr, poll_ret POLLIN 0 WErr (RData ''hi''),
              poll_ret POLLHUP 0 WErr RErr]"
  let ?e = "env_of ?rs 0"
  have p: "pipe_in ?e = Some (3, 4)" "pipe_out ?e = Some (5, 6)" "(0::int) \<le> 4" "(0::int) \<le> 5"
    "0 < fork_ret ?e"
    by (simp_all add: env_of_def)
  have rs: "rounds ?e = ?rs" by (simp add: env_of_def)
  have w': "served stdin_writable (mem_of []) 0 10 (pump_start ?e (mem_of [])) ?rs"
    by (simp add: model_defs pump_start_def stdin_writable_def)
  have i': "served stdin_idle (mem_of []) 0 10 (pump_start ?e (mem_of [])) ?rs"
    by (simp add: model_defs pump_start_def stdin_idle_def)
  have em': "served (emits ''hi'') (mem_of []) 0 10 (pump_start ?e (mem_of [])) ?rs"
    by (simp add: model_defs pump_start_def emits_def)
  have w: "served stdin_writable (mem_of []) 0 10 (pump_start ?e (mem_of [])) (rounds ?e)"
    using w' by (simp only: rs)
  have i: "served stdin_idle (mem_of []) 0 10 (pump_start ?e (mem_of [])) (rounds ?e)"
    using i' by (simp only: rs)
  have em: "served (emits ''hi'') (mem_of []) 0 10 (pump_start ?e (mem_of [])) (rounds ?e)"
    using em' by (simp only: rs)
  have h: "hangup_reported ?e"
    by (simp add: model_defs)
  have wt: "wait_ret ?e = Some (fork_ret ?e, 0)" "WIFEXITED 0" "WEXITSTATUS 0 = 0"
    "int (length ''hi'') \<le> 10" "(10::int) < 2 ^ 31"
    by (simp_all add: env_of_def WIFEXITED_def WEXITSTATUS_def)
  let ?R = "popen2 ?e ''echo'' (Some [''echo'', ''-n'', ''hi'']) (mem_of []) 0 (mem_of []) 10"
  note t = popen2_empty_input [OF p w refl, where data = "''hi''" and status = 0
      and cmd = "''echo''" and argv = "Some [''echo'', ''-n'', ''hi'']"]
  from t have c1: "closed_before_reads 4 (trace (snd ?R))"
    by (rule conjunct1)
  from t i em h wt have c2: "fst ?R = Returned (int (length ''hi''))
      \<and> bytes (output_mem (snd ?R)) 0 (length ''hi'') = ''hi''"
    by blast
  have l: "int (length ''hi'') = 2" "length ''hi'' = 2" by simp_all
  from c2 have c3: "fst ?R = Returned 2" and c4: "bytes (output_mem (snd ?R)) 0 2 = ''hi''"
    unfolding l by simp_all
  show ?thesis
    by (intro conjI w' em' i' c1 c3 c4)
qed

text \<open>
  C9 as stated fails, in its second half: \<open>echo -n hi\<close> with no input and capacity 10,
  where the child has written its two bytes and exited with status 0 before the first
  \<open>poll\<close> returns. The stdin write end then has no reader, and \<open>poll\<close> reports
  \<open>POLLOUT | POLLERR\<close> for it. The write leg closes the descriptor, line 140 takes the
  remaining \<open>POLLERR\<close> for an unknown event, nothing is read, and the call returns -1.
  The first half holds in this run: the write end is closed and no \<open>read\<close> is made.
\<close>

theorem popen2_empty_input_early_exit:
  "fst (popen2 (env_of [poll_ret (POLLIN OR POLLHUP) (POLLOUT OR POLLERR) WErr (RData ''hi'')] 0)
          ''echo'' (Some [''echo'', ''-n'', ''hi'']) (mem_of []) 0 (mem_of []) 10) = Returned (- 1)
   \<and> rev (trace (snd (popen2 (env_of [poll_ret (POLLIN OR POLLHUP) (POLLOUT OR POLLERR) WErr (RData ''hi'')] 0)
          ''echo'' (Some [''echo'', ''-n'', ''hi'']) (mem_of []) 0 (mem_of []) 10)))
       = [SysPipe 3 4, SysPipe 5 6, SysFork 100, SysClose 3, SysClose 6,
          SysPoll 5 4 1 (POLLIN OR POLLHUP) (POLLOUT OR POLLERR), SysClose 4,
          SysClose 5, SysWaitpid 100]
   \<and> served stdin_writable (mem_of []) 0 10
        (pump_start (env_of [poll_ret (POLLIN OR POLLHUP) (POLLOUT OR POLLERR) WErr (RData ''hi'')] 0)
           (mem_of []))
        [poll_ret (POLLIN OR POLLHUP) (POLLOUT OR POLLERR) WErr (RData ''hi'')]"
  by (simp add: model_defs pump_start_def stdin_writable_def)


section \<open>A child that copies its stdin to its stdout\<close>

lemma bytes_append: "bytes m 0 a @ bytes m a b = bytes m 0 (a + b)"
proof -
  have "[0..<a + b] = [0..<a] @ [a..<a + b]"
    using upt_add_eq_append [of 0 a b] by simp
  then show ?thesis by (simp add: bytes_def)
qed

lemma out_inv_grow:
  assumes "out_inv data st" and "readlen st' = readlen st" and "output_mem st' = output_mem st"
    and "take (length data) data' = data"
  shows "out_inv data' st'"
proof -
  have "length (take (length data) data') = length data"
    by (simp only: assms(4))
  then have l: "length data \<le> length data'" by simp
  have n: "nat (readlen st) \<le> length data" using assms(1) by (simp add: out_inv_def)
  have "take (nat (readlen st)) (take (length data) data') = take (nat (readlen st)) data'"
    using n by (simp add: min_def)
  then have "take (nat (readlen st)) data' = take (nat (readlen st)) data"
    by (simp only: assms(4))
  with assms(1-3) l n show ?thesis
    by (simp add: out_inv_def)
qed

lemma write_leg_takes_input:
  assumes ti: "takes_input r" and inv: "cat_inv i1 input inlen st" and cap: "inlen < 2 ^ 64"
  shows "\<exists>st2. write_leg input inlen (polled st r) (wr r) (poll_revents (fds1_fd st) (rev1 r))
                 = Continue (st2, 0)
          \<and> readlen st2 = readlen st \<and> output_mem st2 = output_mem st
          \<and> stdout_fd0 st2 = stdout_fd0 st
          \<and> take (length (sent st)) (sent st2) = sent st
          \<and> sent st2 = bytes input 0 (nat (writelen st2))
          \<and> writelen st \<le> writelen st2 \<and> writelen st2 \<le> inlen
          \<and> stdin_fd1 st2 = fds1_fd st2
          \<and> (if 0 \<le> fds1_fd st2 then fds1_fd st2 = i1 \<and> SysClose i1 \<notin> set (trace st2)
              else writelen st2 = inlen)"
proof (cases "poll_revents (fds1_fd st) (rev1 r) = 0")
  case True
  have "write_leg input inlen (polled st r) (wr r) 0 = Continue (polled st r, 0)"
    by (simp add: write_leg_def)
  with inv show ?thesis
    unfolding True by (auto simp: cat_inv_def polled_def log_call_def split: if_splits)
next
  case False
  with ti have o: "poll_revents (fds1_fd st) (rev1 r) = POLLOUT" and w: "wr r = WDone"
    and fd: "0 \<le> fds1_fd st"
    by (auto simp: takes_input_def poll_revents_def split: if_splits)
  from inv fd have f: "fds1_fd st = i1" "stdin_fd1 st = i1" "SysClose i1 \<notin> set (trace st)"
    "0 \<le> writelen st" "writelen st \<le> inlen" "sent st = bytes input 0 (nat (writelen st))"
    unfolding cat_inv_def by simp_all
  have c: "0 \<le> inlen - writelen st" "inlen - writelen st < 2 ^ 64"
    using f(4,5) cap by simp_all
  have sw: "sys_write WDone (inlen - writelen st) = Some (inlen - writelen st)"
    using c by (simp add: sys_write_def size_t_def)
  have "bytes input 0 (nat (writelen st)) @ bytes input (nat (writelen st)) (nat (inlen - writelen st))
          = bytes input 0 (nat (writelen st) + nat (inlen - writelen st))"
    by (rule bytes_append)
  also have "nat (writelen st) + nat (inlen - writelen st) = nat inlen"
    using f(4,5) by simp
  finally have b: "bytes input 0 (nat (writelen st))
        @ bytes input (nat (writelen st)) (nat (inlen - writelen st)) = bytes input 0 (nat inlen)" .
  have pf: "take (length (bytes input 0 (nat (writelen st)))) (bytes input 0 (nat inlen))
              = bytes input 0 (nat (writelen st))"
    using arg_cong [OF b, of "take (length (bytes input 0 (nat (writelen st))))"] by simp
  have m: "POLLOUT AND NOT POLLOUT = 0" "POLLOUT AND POLLOUT \<noteq> 0" "POLLOUT \<noteq> 0"
    by (simp_all add: POLLOUT_def)
  have i1: "0 \<le> i1" using fd f(1) by simp
  show ?thesis
  proof (cases "writelen st < inlen")
    case True
    then show ?thesis
      unfolding o w using f b pf i1
      by (simp add: write_leg_def sw m polled_def log_call_def Let_def)
  next
    case False
    with f(5) have e: "writelen st = inlen" by simp
    then show ?thesis
      unfolding o w using f i1
      by (simp add: write_leg_def m polled_def log_call_def Let_def)
  qed
qed

lemma read_leg_frame:
  "sent (fst (loop_state (read_leg outlen st r re0))) = sent st"
  "stdin_fd1 (fst (loop_state (read_leg outlen st r re0))) = stdin_fd1 st"
  "fds1_fd (fst (loop_state (read_leg outlen st r re0))) = fds1_fd st"
  "(SysClose fd \<in> set (trace (fst (loop_state (read_leg outlen st r re0)))))
     = (SysClose fd \<in> set (trace st))"
  by (simp_all add: read_leg_def Let_def log_call_def split: prod.splits)

lemma read_leg_break:
  "read_leg outlen st r re0 = Break (s, re) \<Longrightarrow> readlen s = - 1 \<or> outlen \<le> readlen s"
  by (auto simp: read_leg_def Let_def log_call_def split: if_splits prod.splits)

lemma hup_after_mask:
  assumes "re0 AND NOT POLLIN = POLLHUP"
  shows "re0 AND POLLHUP \<noteq> 0"
proof -
  have "re0 AND POLLHUP = (re0 AND NOT POLLIN) AND POLLHUP"
    by (simp add: and.assoc hup_mask)
  then show ?thesis
    by (simp add: assms POLLHUP_nonzero)
qed

lemma read_leg_continue_hup:
  assumes "read_leg outlen st r re0 = Continue (s, POLLHUP)"
  shows "re0 AND POLLHUP \<noteq> 0"
proof (cases "re0 AND POLLIN \<noteq> 0")
  case True
  with assms have "re0 AND NOT POLLIN = POLLHUP"
    by (auto simp: read_leg_def Let_def split: if_splits prod.splits)
  then show ?thesis by (rule hup_after_mask)
next
  case False
  with assms have "re0 = POLLHUP"
    by (simp add: read_leg_def)
  then show ?thesis by (simp add: POLLHUP_nonzero)
qed

lemma pump_step_echoes:
  assumes inv: "cat_inv i1 input inlen st" and P: "echoes i1 input inlen st r"
    and cap: "0 \<le> inlen" "inlen \<le> outlen" "outlen < 2 ^ 64"
  shows "case pump_step input inlen outlen st r of
           Continue s' \<Rightarrow> cat_inv i1 input inlen s'
         | Break s' \<Rightarrow> out_fin (bytes input 0 (nat inlen)) s' \<and> writelen s' = inlen
                        \<and> sent s' = bytes input 0 (nat inlen)
         | Stuck s' \<Rightarrow> False"
proof -
  let ?st1 = "polled st r"
  let ?w = "write_leg input inlen ?st1 (wr r) (poll_revents (fds1_fd st) (rev1 r))"
  have ti: "takes_input r" using P by (simp add: echoes_def)
  have c64: "inlen < 2 ^ 64" using cap(2,3) by simp
  from write_leg_takes_input [OF ti inv c64]
  obtain st2 where w2: "?w = Continue (st2, 0)"
    and f: "readlen st2 = readlen st" "output_mem st2 = output_mem st"
      "stdout_fd0 st2 = stdout_fd0 st"
    and pre: "take (length (sent st)) (sent st2) = sent st"
    and s2: "sent st2 = bytes input 0 (nat (writelen st2))"
    and wl: "writelen st \<le> writelen st2" "writelen st2 \<le> inlen"
    and fd: "stdin_fd1 st2 = fds1_fd st2"
      "if 0 \<le> fds1_fd st2 then fds1_fd st2 = i1 \<and> SysClose i1 \<notin> set (trace st2)
       else writelen st2 = inlen"
    by blast
  have w0: "0 \<le> writelen st" "0 \<le> stdout_fd0 st" and i0: "out_inv (sent st) st"
    using inv unfolding cat_inv_def by blast+
  have aw: "after_write input inlen st r = st2"
    by (simp add: after_write_def w2)
  have em: "emits (sent st2) st r"
    using P by (simp add: echoes_def aw)
  have i2: "out_inv (sent st2) st2"
    using i0 f(1,2) pre by (rule out_inv_grow)
  have len: "int (length (sent st2)) = writelen st2"
    using w0(1) wl(1) by (simp add: s2 bytes_def)
  have capd: "int (length (sent st2)) \<le> outlen"
    using len wl(2) cap(2) by simp
  let ?r = "read_leg outlen st2 (rd r) (rev0 r)"
  let ?s = "fst (loop_state ?r)"
  have rl: "case ?r of
           Continue (st', re) \<Rightarrow> re = 0 \<and> out_inv (sent st2) st' \<or> re = POLLHUP \<and> out_fin (sent st2) st'
         | Break (st', re) \<Rightarrow> out_fin (sent st2) st'
         | Stuck x \<Rightarrow> False"
    by (rule read_leg_emits [OF i2 capd cap(3) em]) (simp add: f)
  have fr: "sent ?s = sent st2" "writelen ?s = writelen st2" "stdin_fd1 ?s = fds1_fd ?s"
    "fds1_fd ?s = fds1_fd st2" "stdout_fd0 ?s = stdout_fd0 st"
    "(SysClose i1 \<in> set (trace ?s)) = (SysClose i1 \<in> set (trace st2))"
    using fd(1) f(3) by (simp_all add: read_leg_frame read_leg_writelen read_leg_stdout_fd0)
  have all: "out_fin (bytes input 0 (nat inlen)) ?s \<and> writelen ?s = inlen
               \<and> sent ?s = bytes input 0 (nat inlen)"
    if "out_fin (sent st2) ?s" and "writelen st2 = inlen"
  proof -
    have "sent st2 = bytes input 0 (nat inlen)"
      using s2 by (simp only: that(2))
    with that show ?thesis
      by (simp add: fr)
  qed
  have p: "\<not> polln r < 0" using em by (simp add: emits_def)
  have pr: "poll_revents (stdout_fd0 st) (rev0 r) = rev0 r"
    using w0(2) by (simp add: poll_revents_def)
  have ps: "pump_step input inlen outlen st r =
      (case ?r of
         Break (st3, re) \<Rightarrow> Break st3
       | Stuck (st3, re) \<Rightarrow> Stuck st3
       | Continue (st3, re) \<Rightarrow>
           if re = POLLHUP then Break st3
           else if re \<noteq> 0 then Break (st3\<lparr>readlen := - 1\<rparr>)
           else Continue st3)"
    unfolding pump_step_def Let_def w2 pr using p by simp
  show ?thesis
  proof (cases ?r)
    case (Break x)
    obtain st3 re where x: "x = (st3, re)" by (cases x)
    from rl have fin: "out_fin (sent st2) st3" by (simp add: Break x)
    from read_leg_break [of outlen st2 "rd r" "rev0 r" st3 re] Break x
    have "readlen st3 = - 1 \<or> outlen \<le> readlen st3" by simp
    with fin len have "outlen \<le> writelen st2" by (auto simp: out_fin_def)
    with wl(2) cap(2) have "writelen st2 = inlen" by simp
    with all fin show ?thesis
      unfolding ps Break x by simp
  next
    case (Stuck x)
    with rl show ?thesis by simp
  next
    case (Continue x)
    obtain st3 re where x: "x = (st3, re)" by (cases x)
    show ?thesis
    proof (cases "re = POLLHUP")
      case True
      from rl have fin: "out_fin (sent st2) st3"
        by (simp add: Continue x True POLLHUP_nonzero)
      from read_leg_continue_hup [of outlen st2 "rd r" "rev0 r" st3] Continue x True
      have "rev0 r AND POLLHUP \<noteq> 0" by simp
      with P have "SysClose i1 \<in> set (trace st)" by (simp add: echoes_def)
      with inv have "writelen st = inlen" by (auto simp: cat_inv_def split: if_splits)
      with wl have "writelen st2 = inlen" by simp
      with all fin show ?thesis
        unfolding ps Continue x by (simp add: True)
    next
      case False
      with rl have z: "re = 0" and i3: "out_inv (sent st2) st3"
        by (simp_all add: Continue x)
      have fr3: "sent st3 = sent st2" "writelen st3 = writelen st2" "stdin_fd1 st3 = fds1_fd st3"
        "fds1_fd st3 = fds1_fd st2" "stdout_fd0 st3 = stdout_fd0 st"
        "(SysClose i1 \<in> set (trace st3)) = (SysClose i1 \<in> set (trace st2))"
        using fr unfolding Continue x by simp_all
      have "out_inv (sent st3) st3"
        using i3 by (simp only: fr3(1))
      moreover have "sent st3 = bytes input 0 (nat (writelen st3))"
        using s2 by (simp only: fr3(1,2))
      moreover have "0 \<le> writelen st3" "writelen st3 \<le> inlen" "0 \<le> stdout_fd0 st3"
        using wl w0 by (simp_all add: fr3)
      moreover have "if 0 \<le> fds1_fd st3 then fds1_fd st3 = i1 \<and> SysClose i1 \<notin> set (trace st3)
                     else writelen st3 = inlen"
        using fd(2) by (simp only: fr3)
      ultimately have "cat_inv i1 input inlen st3"
        unfolding cat_inv_def using fr3(3) by blast
      then show ?thesis
        unfolding ps Continue x by (simp add: z POLLHUP_nonzero [symmetric])
    qed
  qed
qed

lemma pump_echoes:
  assumes inv: "cat_inv i1 input inlen st"
    and P: "served (echoes i1 input inlen) input inlen outlen st rs"
    and cap: "0 \<le> inlen" "inlen \<le> outlen" "outlen < 2 ^ 64"
  shows "case pump input inlen outlen st rs of
           Continue s' \<Rightarrow> cat_inv i1 input inlen s'
         | Break s' \<Rightarrow> out_fin (bytes input 0 (nat inlen)) s' \<and> writelen s' = inlen
                        \<and> sent s' = bytes input 0 (nat inlen)
         | Stuck s' \<Rightarrow> False"
  using inv P
proof (induction rs arbitrary: st)
  case Nil
  then show ?case by simp
next
  case (Cons r rs)
  from Cons.prems have P: "echoes i1 input inlen st r" by simp
  note step = pump_step_echoes [OF Cons.prems(1) P cap]
  show ?case
  proof (cases "pump_step input inlen outlen st r")
    case (Break s)
    with step show ?thesis by simp
  next
    case (Stuck s)
    with step show ?thesis by simp
  next
    case (Continue s)
    with step Cons.prems(2) Cons.IH [of s] show ?thesis by simp
  qed
qed

text \<open>
  What the loop achieves when the \<open>write\<close> of the input returns. Let the child be
  created and let it echo the \<open>inlen\<close> bytes at \<open>input\<close>, with \<open>0 \<le> inlen \<le> outlen\<close>;
  let hang-up be reported on its stdout and let it exit with status 0. Then \<open>popen2\<close>
  returns \<open>inlen\<close>, the bytes written into the stdin pipe are the input, and the first
  \<open>inlen\<close> bytes of the output buffer are the bytes of the input.
\<close>

lemma popen2_echo_returns_input:
  assumes "pipe_in e = Some (i0, i1)" and "pipe_out e = Some (o0, o1)"
    and "0 \<le> i1" and "i1 \<noteq> i0" and "i1 \<noteq> o1" and "0 \<le> o0" and "0 < fork_ret e"
    and "0 \<le> inlen" and "inlen \<le> outlen" and "outlen < 2 ^ 31"
    and "served (echoes i1 input inlen) input inlen outlen (pump_start e out) (rounds e)"
    and "hangup_reported e"
    and "wait_ret e = Some (fork_ret e, status)" and "WIFEXITED status" and "WEXITSTATUS status = 0"
    and "R = popen2 e cmd argv input inlen out outlen"
  shows "fst R = Returned inlen
       \<and> sent (snd R) = bytes input 0 (nat inlen)
       \<and> bytes (output_mem (snd R)) 0 (nat inlen) = bytes input 0 (nat inlen)"
proof -
  let ?st0 = "pump_start e out"
  let ?L = "pump input inlen outlen ?st0 (rounds e)"
  let ?data = "bytes input 0 (nat inlen)"
  have st0: "?st0 = parent_init (i0, i1) (o0, o1)
            (start out [SysFork (fork_ret e), SysPipe (fst (o0, o1)) (snd (o0, o1)),
                        SysPipe (fst (i0, i1)) (snd (i0, i1))])"
    using assms(1,2) by (rule pump_start_eq)
  have R: "R = (case ?L of Continue st' \<Rightarrow> (Blocked, st')
                | Stuck st' \<Rightarrow> (Blocked, st')
                | Break st' \<Rightarrow> reap e (fork_ret e) inlen st')"
    using popen2_parent [OF assms(1,2,7)] assms(16) st0 by simp
  have f0: "readlen ?st0 = 0" "writelen ?st0 = 0" "stdout_fd0 ?st0 = o0" "fds1_fd ?st0 = i1"
    "stdin_fd1 ?st0 = i1" "sent ?st0 = []"
    "trace ?st0 = [SysClose o1, SysClose i0, SysFork (fork_ret e), SysPipe o0 o1, SysPipe i0 i1]"
    unfolding st0 by (simp_all add: parent_init_def start_def log_call_def Let_def)
  have inv: "cat_inv i1 input inlen ?st0"
    using assms(3-6,8) by (simp add: cat_inv_def out_inv_def f0 bytes_def)
  have cap64: "outlen < 2 ^ 64" using assms(10) by simp
  have o: "0 \<le> stdout_fd0 ?st0" using assms(6) by (simp add: f0)
  note pe = pump_echoes [OF inv assms(11,8,9) cap64]
  obtain st where L: "?L = Break st"
    using pump_hup_or_stuck [OF o, of "rounds e" input inlen outlen] assms(12) pe
    by (auto simp: hangup_reported_def)
  from pe L have fin: "out_fin ?data st" "writelen st = inlen" "sent st = ?data" by simp_all
  have len: "length ?data = nat inlen" "int (length ?data) = inlen"
    using assms(8) by (simp_all add: bytes_def)
  from fin(1) have rd: "readlen st = inlen" "bytes (output_mem st) 0 (nat inlen) = ?data"
    unfolding out_fin_def len using assms(8) by simp_all
  have "sent (snd (reap e (fork_ret e) inlen st)) = sent st"
    by (simp add: reap_def log_call_def Let_def split: option.splits prod.splits)
  with rd fin(3) reap_success [OF assms(13-15) fin(2)] L show ?thesis
    unfolding R by simp
qed

text \<open>
  \<open>cat\<close> with \<open>hello\<close> and capacity 10: the five bytes are written and the write end is
  closed, \<open>hel\<close> comes back, then \<open>lo\<close> arrives together with the hang-up.
\<close>

lemma popen2_echo_hello:
  "served (echoes 4 (mem_of ''hello'') 5) (mem_of ''hello'') 5 10
      (pump_start (env_of [poll_ret 0 POLLOUT WDone RErr,
                           poll_ret POLLIN 0 WErr (RData ''hel''),
                           poll_ret (POLLIN OR POLLHUP) 0 WErr (RData ''lo'')] 0) (mem_of []))
      [poll_ret 0 POLLOUT WDone RErr,
       poll_ret POLLIN 0 WErr (RData ''hel''),
       poll_ret (POLLIN OR POLLHUP) 0 WErr (RData ''lo'')]
   \<and> fst (popen2 (env_of [poll_ret 0 POLLOUT WDone RErr,
                         poll_ret POLLIN 0 WErr (RData ''hel''),
                         poll_ret (POLLIN OR POLLHUP) 0 WErr (RData ''lo'')] 0)
           ''cat'' None (mem_of ''hello'') 5 (mem_of []) 10) = Returned 5
   \<and> sent (snd (popen2 (env_of [poll_ret 0 POLLOUT WDone RErr,
                         poll_ret POLLIN 0 WErr (RData ''hel''),
                         poll_ret (POLLIN OR POLLHUP) 0 WErr (RData ''lo'')] 0)
           ''cat'' None (mem_of ''hello'') 5 (mem_of []) 10)) = ''hello''
   \<and> bytes (output_mem (snd (popen2 (env_of [poll_ret 0 POLLOUT WDone RErr,
                         poll_ret POLLIN 0 WErr (RData ''hel''),
                         poll_ret (POLLIN OR POLLHUP) 0 WErr (RData ''lo'')] 0)
           ''cat'' None (mem_of ''hello'') 5 (mem_of []) 10))) 0 5 = ''hello''"
proof -
  let ?rs = "[poll_ret 0 POLLOUT WDone RErr,
              poll_ret POLLIN 0 WErr (RData ''hel''),
              poll_ret (POLLIN OR POLLHUP) 0 WErr (RData ''lo'')]"
  let ?e = "env_of ?rs 0"
  let ?R = "popen2 ?e ''cat'' None (mem_of ''hello'') 5 (mem_of []) 10"
  have p: "pipe_in ?e = Some (3, 4)" "pipe_out ?e = Some (5, 6)" "(0::int) \<le> 4"
    "(4::int) \<noteq> 3" "(4::int) \<noteq> 6" "(0::int) \<le> 5"
    "0 < fork_ret ?e" "(0::int) \<le> 5" "(5::int) \<le> 10" "(10::int) < 2 ^ 31"
    by (simp_all add: env_of_def)
  have rs: "rounds ?e = ?rs" by (simp add: env_of_def)
  have s': "served (echoes 4 (mem_of ''hello'') 5) (mem_of ''hello'') 5 10
              (pump_start ?e (mem_of [])) ?rs"
    by (simp add: model_defs pump_start_def echoes_def emits_def takes_input_def
          after_write_def upt_rec)
  have s: "served (echoes 4 (mem_of ''hello'') 5) (mem_of ''hello'') 5 10
              (pump_start ?e (mem_of [])) (rounds ?e)"
    using s' by (simp only: rs)
  have h: "hangup_reported ?e"
    by (simp add: model_defs)
  have w: "wait_ret ?e = Some (fork_ret ?e, 0)" "WIFEXITED 0" "WEXITSTATUS 0 = 0"
    by (simp_all add: env_of_def WIFEXITED_def WEXITSTATUS_def)
  note t = popen2_echo_returns_input [OF p s h w refl, where cmd = "''cat''" and argv = None]
  have b: "bytes (mem_of ''hello'') 0 (nat 5) = ''hello''"
    by (simp add: bytes_def mem_of_def upt_rec)
  from t have c1: "fst ?R = Returned 5" by (rule conjunct1)
  from t b have c2: "sent (snd ?R) = ''hello''" by simp
  from t b have c3: "bytes (output_mem (snd ?R)) 0 5 = ''hello''" by simp
  show ?thesis
    by (intro conjI s' c1 c2 c3)
qed

text \<open>The same child with capacity 5: the loop is left when the buffer is full.\<close>

lemma popen2_echo_full_buffer:
  "fst (popen2 (env_of [poll_ret 0 POLLOUT WDone RErr,
                        poll_ret POLLIN 0 WErr (RData ''hello'')] 0)
          ''cat'' None (mem_of ''hello'') 5 (mem_of []) 5) = Returned 5"
  by (simp add: model_defs)

text \<open>
  C1. The claim fails on the code. \<open>cat\<close> with 300000 bytes of input and capacity
  300000: the first \<open>poll\<close> reports the stdin write end writable, and line 121 calls
  \<open>write\<close> for all 300000 bytes on a blocking descriptor. The stdin pipe takes what it
  has room for, \<open>cat\<close> copies it to the stdout pipe until that is full and then waits
  for the parent to read, and the parent waits in \<open>write\<close> for \<open>cat\<close> to read: the
  call never returns.
\<close>

theorem popen2_identity_deadlock:
  "fst (popen2 (env_of [poll_ret 0 POLLOUT WBlock RErr] 0)
          ''cat'' None (mem_of []) 300000 (mem_of []) 300000) = Blocked
   \<and> rev (trace (snd (popen2 (env_of [poll_ret 0 POLLOUT WBlock RErr] 0)
          ''cat'' None (mem_of []) 300000 (mem_of []) 300000)))
       = [SysPipe 3 4, SysPipe 5 6, SysFork 100, SysClose 3, SysClose 6,
          SysPoll 5 4 1 0 POLLOUT, SysWriteStuck 4 0 300000]"
  by (simp add: model_defs)

section \<open>The bytes handed to the child\<close>

text \<open>
  Input bytes reach the stdin pipe in the order given: whenever the call stops, what its
  writes have delivered is the input up to the write cursor.
\<close>

lemma write_leg_sent_inv:
  assumes "sent_inv input st"
  shows "sent_inv input (fst (loop_state (write_leg input inlen st w re1)))"
proof (cases "re1 AND POLLOUT \<noteq> 0 \<and> writelen st < inlen")
  case False
  with assms show ?thesis
    by (auto simp: write_leg_def sent_inv_def log_call_def Let_def)
next
  case True
  show ?thesis
  proof (cases "sys_write w (inlen - writelen st)")
    case None
    with True assms show ?thesis
      by (simp add: write_leg_def sent_inv_def log_call_def Let_def)
  next
    case (Some n)
    show ?thesis
    proof (cases "n < 0")
      case neg: True
      with True Some assms show ?thesis
        by (simp add: write_leg_def sent_inv_def log_call_def Let_def)
    next
      case False
      then have n: "0 \<le> n" by simp
      have "sent st @ bytes input (nat (writelen st)) (nat n) = bytes input 0 (nat (writelen st + n))"
        using assms n by (simp add: sent_inv_def bytes_append nat_add_distrib)
      with True False Some assms n show ?thesis
        by (simp add: write_leg_def sent_inv_def log_call_def Let_def)
    qed
  qed
qed

lemma read_leg_sent_inv:
  "sent_inv input st \<Longrightarrow> sent_inv input (fst (loop_state (read_leg outlen st r re0)))"
  by (auto simp: read_leg_def sent_inv_def log_call_def Let_def split: prod.splits)

lemma pump_step_sent_inv:
  assumes "sent_inv input st"
  shows "sent_inv input (loop_state (pump_step input inlen outlen st r))"
proof -
  let ?st1 = "polled st r"
  let ?w = "write_leg input inlen ?st1 (wr r) (poll_revents (fds1_fd st) (rev1 r))"
  have 1: "sent_inv input ?st1"
    using assms by (simp add: sent_inv_def polled_def log_call_def)
  have r': "sent_inv input (s\<lparr>readlen := v\<rparr>) = sent_inv input s" for s v
    by (simp add: sent_inv_def)
  note w = write_leg_sent_inv [OF 1, of inlen "wr r" "poll_revents (fds1_fd st) (rev1 r)"]
  show ?thesis
    using 1 w read_leg_sent_inv [OF w, of outlen "rd r" "poll_revents (stdout_fd0 st) (rev0 r)"]
    by (auto simp: pump_step_def Let_def r' split: loop.splits prod.splits)
qed

lemma pump_sent_inv:
  "sent_inv input st \<Longrightarrow> sent_inv input (loop_state (pump input inlen outlen st rs))"
proof (induction rs arbitrary: st)
  case Nil
  then show ?case by simp
next
  case (Cons r rs)
  from pump_step_sent_inv [OF Cons.prems, of inlen outlen r] Cons.IH
  show ?case
    by (cases "pump_step input inlen outlen st r") simp_all
qed

lemma popen2_sent:
  "sent (snd (popen2 e cmd argv input inlen out outlen))
     = bytes input 0 (nat (writelen (snd (popen2 e cmd argv input inlen out outlen))))"
proof -
  have s: "sent_inv input (start out tr)" for tr
    by (simp add: sent_inv_def start_def bytes_def)
  have "sent_inv input (snd (popen2 e cmd argv input inlen out outlen))"
  proof (cases "pipe_in e")
    case None
    then show ?thesis using s by (simp add: popen2_def)
  next
    case sin: (Some sin)
    show ?thesis
    proof (cases "pipe_out e")
      case None
      then show ?thesis using sin s by (simp add: popen2_def)
    next
      case sout: (Some sout)
      let ?tr = "[SysFork (fork_ret e), SysPipe (fst sout) (snd sout), SysPipe (fst sin) (snd sin)]"
      consider (fail) "fork_ret e < 0" | (child) "fork_ret e = 0" | (parent) "0 < fork_ret e"
        by linarith
      then show ?thesis
      proof cases
        case fail
        then show ?thesis using sin sout s by (simp add: popen2_def Let_def)
      next
        case child
        have "sent_inv input (snd (child e cmd argv sin sout (start out ?tr)))"
          using s [of ?tr] by (simp add: child_def sent_inv_def log_call_def Let_def)
        then show ?thesis using sin sout child by (simp add: popen2_def Let_def)
      next
        case parent
        let ?st0 = "parent_init sin sout (start out ?tr)"
        have "sent_inv input ?st0"
          by (simp add: sent_inv_def parent_init_def start_def log_call_def Let_def bytes_def)
        from pump_sent_inv [OF this, of inlen outlen "rounds e"]
        have l: "sent_inv input (loop_state (pump input inlen outlen ?st0 (rounds e)))" .
        have r: "sent_inv input (snd (reap e pid inlen st))" if "sent_inv input st" for pid st
          using that
          by (simp add: reap_def sent_inv_def log_call_def Let_def split: option.splits prod.splits)
        show ?thesis
          unfolding popen2_parent [OF sin sout parent]
          using l r by (cases "pump input inlen outlen ?st0 (rounds e)") simp_all
      qed
    qed
  qed
  then show ?thesis by (simp add: sent_inv_def)
qed



end
